theory Spec2Isabelle
  imports Complex_Main
begin

section \<open>Problem 4: three ways to sum to n\<close>

text \<open>
  The three TypeScript functions take a \<^verbatim>\<open>number\<close>. They are modelled over the
  integers (exact arithmetic). The division of \<^verbatim>\<open>sum_to_n_a\<close> is the
  integer quotient; that nothing is lost by it is part of what is proved below
  (twice the result is the product).
\<close>

definition sum_to_n_a :: "int \<Rightarrow> int" where
  "sum_to_n_a n = (n * (n + 1)) div 2"

text \<open>
  \<^verbatim>\<open>Array.from({ length: n }, (_, index) => index + 1)\<close> builds the array
  \<open>1, ..., n\<close>; a negative length gives the empty array. \<^verbatim>\<open>reduce\<close> with
  the initial value 0 is a left fold.
\<close>

definition sum_to_n_b :: "int \<Rightarrow> int" where
  "sum_to_n_b n =
     (let arr = map (\<lambda>index. int index + 1) [0..<nat n]
      in foldl (\<lambda>acc curr. acc + curr) 0 arr)"

function sum_to_n_c :: "int \<Rightarrow> int" where
  "sum_to_n_c n = (if n \<le> 0 then 0 else n + sum_to_n_c (n - 1))"
  by pat_completeness auto
termination
  by (relation "measure nat") auto

declare sum_to_n_c.simps [simp del]

section \<open>Problem 5: the item service of the CRUD server\<close>

subsection \<open>JavaScript values of a request body\<close>

text \<open>
  \<^verbatim>\<open>req.body\<close> is parsed JSON, so at run time a field of the payload is any
  JSON scalar or is missing, whatever \<^verbatim>\<open>Partial<Item>\<close> promises. A missing
  field reads as \<^verbatim>\<open>undefined\<close>. Finite JavaScript numbers are rationals.
  Objects and arrays are left out.
\<close>

datatype jsval = JUndefined | JNull | JBool bool | JNum rat | JStr string

text \<open>JavaScript's ToBoolean, as used by \<^verbatim>\<open>!name\<close> and by \<^verbatim>\<open>||\<close>.\<close>

fun truthy :: "jsval \<Rightarrow> bool" where
  "truthy JUndefined = False"
| "truthy JNull = False"
| "truthy (JBool b) = b"
| "truthy (JNum q) = (q \<noteq> 0)"
| "truthy (JStr s) = (s \<noteq> [])"

definition js_or :: "jsval \<Rightarrow> jsval \<Rightarrow> jsval" where
  "js_or a b = (if truthy a then a else b)"

text \<open>
  The five fields that \<^verbatim>\<open>createItem\<close> and \<^verbatim>\<open>updateItem\<close> destructure
  from the payload.
\<close>

record item_data =
  name :: jsval
  description :: jsval
  category :: jsval
  price :: jsval
  quantity :: jsval

subsection \<open>The items table\<close>

text \<open>
  One row of the table created in \<^verbatim>\<open>database/db.ts\<close>. The columns hold the
  values as the statement bound them; SQLite's conversion of a value to the
  column's affinity is not modelled. Timestamps are seconds.
\<close>

record item_row =
  row_id :: int
  row_name :: jsval
  row_description :: jsval
  row_category :: jsval
  row_price :: jsval
  row_quantity :: jsval
  created_at :: nat
  updated_at :: nat

text \<open>
  The database as the service sees it through \<^verbatim>\<open>db.run\<close>: the rows of
  \<^verbatim>\<open>items\<close>, the AUTOINCREMENT counter (the largest row id handed out so far),
  and the error, if any, with which the driver fails a statement for reasons
  outside the statement: the table is missing because \<^verbatim>\<open>CREATE TABLE\<close> failed
  in \<^verbatim>\<open>initializeDatabase\<close> (which only logs the error), the file is locked
  or cannot be written.
\<close>

record database =
  items :: "item_row list"
  sequence :: int
  driver_fault :: "string option"

text \<open>What a Promise settles to. A \<^verbatim>\<open>throw\<close> in an async function rejects it.\<close>

datatype 'a promise = Resolved 'a | Rejected string

text \<open>
  \<^verbatim>\<open>id INTEGER PRIMARY KEY AUTOINCREMENT\<close>: the new row id is one more than
  the largest id ever used in the table.
\<close>

definition next_rowid :: "database \<Rightarrow> int" where
  "next_rowid db = max (sequence db) (fold max (map row_id (items db)) 0) + 1"

text \<open>
  \<^verbatim>\<open>db.run\<close> of the INSERT statement with its five parameters at time \<open>now\<close>
  (\<^verbatim>\<open>DEFAULT CURRENT_TIMESTAMP\<close> fills both timestamps). The callback gets
  either \<^verbatim>\<open>err\<close> (left) or \<^verbatim>\<open>this.lastID\<close> (right). A statement
  that fails changes nothing.
\<close>

definition db_run_insert ::
  "database \<Rightarrow> nat \<Rightarrow> jsval \<Rightarrow> jsval \<Rightarrow> jsval \<Rightarrow> jsval \<Rightarrow> jsval
     \<Rightarrow> (string + int) \<times> database" where
  "db_run_insert db now n d c p q =
     (case driver_fault db of
        Some e \<Rightarrow> (Inl e, db)
      | None \<Rightarrow>
          if n = JNull \<or> n = JUndefined
          then (Inl ''SQLITE_CONSTRAINT: NOT NULL constraint failed: items.name'', db)
          else
            let lastID = next_rowid db;
                row = \<lparr>row_id = lastID, row_name = n, row_description = d,
                       row_category = c, row_price = p, row_quantity = q,
                       created_at = now, updated_at = now\<rparr>
            in (Inr lastID, db\<lparr>items := items db @ [row], sequence := lastID\<rparr>))"

definition createItem :: "database \<Rightarrow> nat \<Rightarrow> item_data \<Rightarrow> int promise \<times> database" where
  "createItem db now itemData =
     (if \<not> truthy (name itemData) then (Rejected ''Name is required'', db)
      else
        case db_run_insert db now
               (name itemData)
               (js_or (description itemData) JNull)
               (js_or (category itemData) JNull)
               (js_or (price itemData) JNull)
               (js_or (quantity itemData) (JNum 0)) of
          (Inl err, db') \<Rightarrow> (Rejected err, db')
        | (Inr lastID, db') \<Rightarrow> (Resolved lastID, db'))"

text \<open>The columns that \<^verbatim>\<open>updateItem\<close> can put into the SET list.\<close>

datatype column = Name | Description | Category | Price | Quantity

fun set_column :: "column \<times> jsval \<Rightarrow> item_row \<Rightarrow> item_row" where
  "set_column (Name, v) r = r\<lparr>row_name := v\<rparr>"
| "set_column (Description, v) r = r\<lparr>row_description := v\<rparr>"
| "set_column (Category, v) r = r\<lparr>row_category := v\<rparr>"
| "set_column (Price, v) r = r\<lparr>row_price := v\<rparr>"
| "set_column (Quantity, v) r = r\<lparr>row_quantity := v\<rparr>"

definition apply_updates :: "(column \<times> jsval) list \<Rightarrow> nat \<Rightarrow> item_row \<Rightarrow> item_row" where
  "apply_updates updates now r = (fold set_column updates r)\<lparr>updated_at := now\<rparr>"

text \<open>
  \<^verbatim>\<open>db.run\<close> of \<^verbatim>\<open>UPDATE items SET ..., updated_at = CURRENT_TIMESTAMP
  WHERE id = ?\<close>. The route hands the id over as text (\<open>item_id\<close>); how the engine compares
  that text with the integer key is the engine's business and not in the
  repository, so the comparison \<open>same_id\<close> is a parameter. The callback gets
  either \<^verbatim>\<open>err\<close> (left) or \<^verbatim>\<open>this.changes\<close> (right), the number of
  rows the WHERE clause selected. \<^verbatim>\<open>name TEXT NOT NULL\<close> fails the statement
  when a selected row would get a NULL name. A statement that fails changes
  nothing.
\<close>

definition db_run_update ::
  "(string \<Rightarrow> int \<Rightarrow> bool) \<Rightarrow> database \<Rightarrow> nat \<Rightarrow> (column \<times> jsval) list \<Rightarrow> string
     \<Rightarrow> (string + nat) \<times> database" where
  "db_run_update same_id db now updates item_id =
     (case driver_fault db of
        Some e \<Rightarrow> (Inl e, db)
      | None \<Rightarrow>
          let selected = (\<lambda>r. same_id item_id (row_id r))
          in if filter selected (items db) \<noteq> [] \<and> (Name, JNull) \<in> set updates
             then (Inl ''SQLITE_CONSTRAINT: NOT NULL constraint failed: items.name'', db)
             else (Inr (length (filter selected (items db))),
                   db\<lparr>items := map (\<lambda>r. if selected r then apply_updates updates now r else r)
                                  (items db)\<rparr>))"

text \<open>
  The first half of \<^verbatim>\<open>updateItem\<close>: the SET list \<^verbatim>\<open>updates\<close> with its
  parameters, one entry for each field of the payload that is not
  \<^verbatim>\<open>undefined\<close>, in the order of the source.
\<close>

definition updates :: "item_data \<Rightarrow> (column \<times> jsval) list" where
  "updates itemData =
       (if name itemData \<noteq> JUndefined then [(Name, name itemData)] else [])
     @ (if description itemData \<noteq> JUndefined then [(Description, description itemData)] else [])
     @ (if category itemData \<noteq> JUndefined then [(Category, category itemData)] else [])
     @ (if price itemData \<noteq> JUndefined then [(Price, price itemData)] else [])
     @ (if quantity itemData \<noteq> JUndefined then [(Quantity, quantity itemData)] else [])"

definition updateItem ::
  "(string \<Rightarrow> int \<Rightarrow> bool) \<Rightarrow> database \<Rightarrow> nat \<Rightarrow> string \<Rightarrow> item_data
     \<Rightarrow> unit promise \<times> database" where
  "updateItem same_id db now item_id itemData =
     (if length (updates itemData) = 0 then (Rejected ''No fields to update'', db)
      else
        case db_run_update same_id db now (updates itemData) item_id of
          (Inl err, db') \<Rightarrow> (Rejected err, db')
        | (Inr changes, db') \<Rightarrow>
            if changes = 0 then (Rejected ''Item not found'', db')
            else (Resolved (), db'))"

text \<open>
  A comparison for the examples: the text is the plain decimal numeral of the
  key. It is not SQLite's comparison, which also takes other spellings of a
  number (\<^verbatim>\<open>'1.0'\<close>, \<^verbatim>\<open>' 1'\<close>, \<^verbatim>\<open>'+1'\<close>) for the key 1; the two
  agree on plain decimal numerals, the only ids the examples use, and every
  theorem about \<^verbatim>\<open>updateItem\<close> holds for any comparison.
\<close>

fun decimal_value :: "string \<Rightarrow> nat \<Rightarrow> nat option" where
  "decimal_value [] acc = Some acc"
| "decimal_value (c # cs) acc =
     (if 48 \<le> (of_char c :: nat) \<and> (of_char c :: nat) \<le> 57
      then decimal_value cs (10 * acc + (of_char c - 48))
      else None)"

definition decimal_id :: "string \<Rightarrow> int \<Rightarrow> bool" where
  "decimal_id s i = (s \<noteq> [] \<and> 0 \<le> i \<and> decimal_value s 0 = Some (nat i))"

section \<open>The scoreboard core: token chain, score ledger and rank index\<close>

text \<open>
  The repository holds no implementation of this system: \<^verbatim>\<open>Architecture/README.md\<close>
  is a design document for a backend team. Every definition of this section is
  therefore written from the specification, and says so.
\<close>

subsection \<open>Data model\<close>

text \<open>
  Modelled from the spec: the Session record of section 3 (no code declares it).
  Identifiers are numbers taken from a counter, which makes them unique; that
  they are unguessable is not modelled. User ids are numbers, instants are
  seconds. \<open>endedAt\<close> is the field that \<open>endSession\<close> sets in section 4.1.
\<close>

record session =
  sessionId :: nat
  userId :: nat
  createdAt :: nat
  expiresAt :: nat
  active :: bool
  actionsCompleted :: nat
  endedAt :: "nat option"

text \<open>
  Modelled from the spec: the ActionToken record of section 3 (no code declares
  it). The fields that share a name with a field of Session carry the prefix
  \<open>tok\<close>.
\<close>

record action_token =
  tokenId :: nat
  tok_sessionId :: nat
  tok_userId :: nat
  tok_expiresAt :: nat
  issuedAt :: nat
  tok_active :: bool
  consumedAt :: "nat option"

text \<open>Modelled from the spec: the ScoreEvent record of section 3 (no code declares it).\<close>

record score_event =
  ev_userId :: nat
  actionType :: string
  pointsEarned :: nat
  ev_tokenId :: nat
  scoreBefore :: nat
  scoreAfter :: nat
  occurredAt :: nat

text \<open>Modelled from the spec: the UserScore record of section 3 (no code declares it).\<close>

record user_score =
  us_userId :: nat
  score :: nat
  updatedAt :: nat

text \<open>
  Modelled from the spec: the failure kinds of the table in section 6 (no code
  declares them).
\<close>

datatype failure =
    SessionAlreadyActive | TokenNotFound | InvalidToken | TokenAlreadyUsed
  | SessionExpired | SessionNotFound | InvalidActionType | RateLimitExceeded
  | UserNotFound

text \<open>
  Modelled from the spec: the shared mutable state of section 5 (no code holds
  it): the Session and Token records, the score ledger with its append-only
  history, the calls the Request Gate counts for its two rate limits (user and
  instant of each call), and the counter that hands out identifiers. The rank
  index is derived from the ledger and is not stored.
\<close>

record core =
  sessions :: "session list"
  tokens :: "action_token list"
  ledger :: "user_score list"
  history :: "score_event list"
  submit_log :: "(nat \<times> nat) list"
  start_log :: "(nat \<times> nat) list"
  next_id :: nat

text \<open>Modelled from the spec: the state before any operation (no code builds it).\<close>

definition init :: core where
  "init = \<lparr>sessions = [], tokens = [], ledger = [], history = [],
           submit_log = [], start_log = [], next_id = 0\<rparr>"

text \<open>
  Modelled from the spec: the fixed session duration, "e.g. 1800s" in section 3
  (no code fixes it).
\<close>

definition sessionDuration :: nat where
  "sessionDuration = 1800"

subsection \<open>Token Chain Manager\<close>

text \<open>
  Modelled from the spec: lookup of a token by its id and of a session by its
  id ("tokens are independently addressable by tokenId", section 3; no code
  implements it).
\<close>

definition find_token :: "nat \<Rightarrow> core \<Rightarrow> action_token option" where
  "find_token tid st = find (\<lambda>t. tokenId t = tid) (tokens st)"

definition find_session :: "nat \<Rightarrow> core \<Rightarrow> session option" where
  "find_session sid st = find (\<lambda>s. sessionId s = sid) (sessions st)"

text \<open>
  Modelled from the spec: the lazy expiry of section 3, "active flips false
  lazily on first access after now > expiresAt" (no code implements it).
\<close>

definition expire :: "nat \<Rightarrow> session \<Rightarrow> session" where
  "expire now s = (if active s \<and> expiresAt s < now then s\<lparr>active := False\<rparr> else s)"

text \<open>
  Modelled from the spec: \<open>startSession\<close> of section 4.1 (no code implements
  it). It fails with SessionAlreadyActive if the user has an active session;
  otherwise it creates the session with \<open>expiresAt = now + sessionDuration\<close> and
  the first token with the same \<open>expiresAt\<close>, both in one step. Looking at the
  user's sessions is an access, so those past their expiry are first flipped to
  inactive.
\<close>

definition startSession :: "nat \<Rightarrow> nat \<Rightarrow> core \<Rightarrow> (failure + action_token) \<times> core" where
  "startSession uid now st =
     (let ss = map (\<lambda>s. if userId s = uid then expire now s else s) (sessions st)
      in if list_ex (\<lambda>s. userId s = uid \<and> active s) ss
         then (Inl SessionAlreadyActive, st)
         else
           let s = \<lparr>sessionId = next_id st, userId = uid, createdAt = now,
                    expiresAt = now + sessionDuration, active = True,
                    actionsCompleted = 0, endedAt = None\<rparr>;
               t = \<lparr>tokenId = next_id st + 1, tok_sessionId = sessionId s,
                    tok_userId = uid, tok_expiresAt = expiresAt s, issuedAt = now,
                    tok_active = True, consumedAt = None\<rparr>
           in (Inr t, st\<lparr>sessions := ss @ [s], tokens := tokens st @ [t],
                          next_id := next_id st + 2\<rparr>))"

text \<open>
  Modelled from the spec: \<open>validateAndRotate\<close> of section 4.1 (no code
  implements it). The four checks in the order of the spec, each failing at
  once; a session that is missing counts as not active. A session found past
  its expiry is flipped to inactive (the transition to EXPIRED is detected on
  the validation attempt). On success the token is consumed at \<open>now\<close>, its
  successor is created with the session's \<open>expiresAt\<close>, and the session counts
  one more action, all in one step.
\<close>

definition validateAndRotate ::
  "nat \<Rightarrow> nat \<Rightarrow> nat \<Rightarrow> core \<Rightarrow> (failure + action_token) \<times> core" where
  "validateAndRotate uid tid now st =
     (case find_token tid st of
        None \<Rightarrow> (Inl TokenNotFound, st)
      | Some t \<Rightarrow>
          if tok_userId t \<noteq> uid then (Inl InvalidToken, st)
          else if \<not> tok_active t then (Inl TokenAlreadyUsed, st)
          else
            case find_session (tok_sessionId t) st of
              None \<Rightarrow> (Inl SessionExpired, st)
            | Some s \<Rightarrow>
                if \<not> (active s \<and> now \<le> expiresAt s)
                then (Inl SessionExpired,
                      st\<lparr>sessions :=
                           map (\<lambda>x. if sessionId x = sessionId s then expire now x else x)
                             (sessions st)\<rparr>)
                else
                  let t' = \<lparr>tokenId = next_id st, tok_sessionId = sessionId s,
                            tok_userId = tok_userId t, tok_expiresAt = expiresAt s,
                            issuedAt = now, tok_active = True, consumedAt = None\<rparr>
                  in (Inr t',
                      st\<lparr>tokens :=
                           map (\<lambda>x. if tokenId x = tid
                                     then x\<lparr>tok_active := False, consumedAt := Some now\<rparr>
                                     else x)
                             (tokens st) @ [t'],
                         sessions :=
                           map (\<lambda>x. if sessionId x = sessionId s
                                     then x\<lparr>actionsCompleted := actionsCompleted x + 1\<rparr>
                                     else x)
                             (sessions st),
                         next_id := next_id st + 1\<rparr>))"

text \<open>
  Modelled from the spec: \<open>endSession\<close> of section 4.1 (no code implements it).
  It retires the active token of the user's active session without a
  successor and sets \<open>active = false\<close>, \<open>endedAt = now\<close>; with no active session
  it fails with SessionNotFound and changes nothing.
\<close>

definition endSession :: "nat \<Rightarrow> nat \<Rightarrow> core \<Rightarrow> (failure + session) \<times> core" where
  "endSession uid now st =
     (case find (\<lambda>s. userId s = uid \<and> active s) (sessions st) of
        None \<Rightarrow> (Inl SessionNotFound, st)
      | Some s \<Rightarrow>
          (Inr (s\<lparr>active := False, endedAt := Some now\<rparr>),
           st\<lparr>tokens :=
                map (\<lambda>t. if tok_sessionId t = sessionId s then t\<lparr>tok_active := False\<rparr> else t)
                  (tokens st),
              sessions :=
                map (\<lambda>x. if sessionId x = sessionId s
                          then x\<lparr>active := False, endedAt := Some now\<rparr> else x)
                  (sessions st)\<rparr>))"

subsection \<open>Score Ledger\<close>

text \<open>
  Modelled from the spec: the fixed point table of section 4.2 (no code holds
  it).
\<close>

definition pointsFor :: "string \<Rightarrow> nat option" where
  "pointsFor a =
     (if a = ''watch_ad'' then Some 10
      else if a = ''solve_puzzle'' then Some 15
      else if a = ''complete_level'' then Some 20
      else if a = ''daily_bonus'' then Some 5
      else None)"

text \<open>
  Modelled from the spec: reading and writing a UserScore (section 4.2, "reads
  scoreBefore ... writes UserScore"; no code implements it). A user without an
  entry has score 0, and the first write creates the entry.
\<close>

definition score_of :: "nat \<Rightarrow> user_score list \<Rightarrow> nat" where
  "score_of uid led =
     (case find (\<lambda>e. us_userId e = uid) led of None \<Rightarrow> 0 | Some e \<Rightarrow> score e)"

definition write_score :: "nat \<Rightarrow> nat \<Rightarrow> nat \<Rightarrow> user_score list \<Rightarrow> user_score list" where
  "write_score uid v now led =
     (if list_ex (\<lambda>e. us_userId e = uid) led
      then map (\<lambda>e. if us_userId e = uid then e\<lparr>score := v, updatedAt := now\<rparr> else e) led
      else led @ [\<lparr>us_userId = uid, score = v, updatedAt = now\<rparr>])"

text \<open>
  Modelled from the spec: what \<open>applyAction\<close> returns, "(scoreAfter,
  pointsEarned, newTokenId, expiresAt)" (no code declares it).
\<close>

record applied =
  ap_scoreAfter :: nat
  ap_pointsEarned :: nat
  ap_newTokenId :: nat
  ap_expiresAt :: nat

text \<open>
  Modelled from the spec: \<open>applyAction\<close> of section 4.2 (no code implements
  it): the point table first, then \<open>validateAndRotate\<close>, then the score write
  and the history entry in the same step as the rotation.
\<close>

definition applyAction ::
  "nat \<Rightarrow> string \<Rightarrow> nat \<Rightarrow> nat \<Rightarrow> core \<Rightarrow> (failure + applied) \<times> core" where
  "applyAction uid a tid now st =
     (case pointsFor a of
        None \<Rightarrow> (Inl InvalidActionType, st)
      | Some points \<Rightarrow>
          case validateAndRotate uid tid now st of
            (Inl e, st') \<Rightarrow> (Inl e, st')
          | (Inr t', st') \<Rightarrow>
              let old_score = score_of uid (ledger st');
                  new_score = old_score + points
              in (Inr \<lparr>ap_scoreAfter = new_score, ap_pointsEarned = points,
                       ap_newTokenId = tokenId t', ap_expiresAt = tok_expiresAt t'\<rparr>,
                  st'\<lparr>ledger := write_score uid new_score now (ledger st'),
                      history := history st' @
                        [\<lparr>ev_userId = uid, actionType = a, pointsEarned = points,
                          ev_tokenId = tid, scoreBefore = old_score, scoreAfter = new_score,
                          occurredAt = now\<rparr>]\<rparr>))"

subsection \<open>Rank Index\<close>

text \<open>
  Modelled from the spec: the order of section 4.3, score descending and ties
  by ascending userId (no code implements it).
\<close>

definition ranks_before :: "user_score \<Rightarrow> user_score \<Rightarrow> bool" where
  "ranks_before a b = (score b < score a \<or> (score a = score b \<and> us_userId a < us_userId b))"

text \<open>
  Modelled from the spec: the rank index as a re-sort of the ledger ("lazy
  re-sort" is one of the two implementations section 4.3 allows; no code
  implements either). The sort is by insertion.
\<close>

fun rank_insert :: "user_score \<Rightarrow> user_score list \<Rightarrow> user_score list" where
  "rank_insert e [] = [e]"
| "rank_insert e (x # xs) =
     (if ranks_before e x then e # x # xs else x # rank_insert e xs)"

definition rank_index :: "user_score list \<Rightarrow> user_score list" where
  "rank_index led = foldr rank_insert led []"

text \<open>
  Modelled from the spec: the two queries of section 4.3, \<open>topN\<close> (the n
  highest scorers in order) and \<open>rankOf\<close> (the 1-based position; no code
  implements them). \<open>position\<close> is the 1-based place of a user in a list.
\<close>

definition topN :: "nat \<Rightarrow> core \<Rightarrow> user_score list" where
  "topN n st = take n (rank_index (ledger st))"

fun position :: "nat \<Rightarrow> user_score list \<Rightarrow> nat option" where
  "position uid [] = None"
| "position uid (x # xs) =
     (if us_userId x = uid then Some 1 else map_option Suc (position uid xs))"

definition rankOf :: "nat \<Rightarrow> core \<Rightarrow> nat option" where
  "rankOf uid st = position uid (rank_index (ledger st))"

text \<open>
  Modelled from the spec: \<open>getTopN\<close> and \<open>getUserRank\<close> of the table in section 6
  (no code implements them): the entries \<open>(rank, userId, score)\<close> in order, and
  \<open>(score, rank)\<close> or UserNotFound.
\<close>

definition getTopN :: "nat \<Rightarrow> core \<Rightarrow> (nat \<times> nat \<times> nat) list" where
  "getTopN n st = map (\<lambda>(i, e). (Suc i, us_userId e, score e)) (enumerate 0 (topN n st))"

definition getUserRank :: "nat \<Rightarrow> core \<Rightarrow> failure + (nat \<times> nat)" where
  "getUserRank uid st =
     (case rankOf uid st of
        None \<Rightarrow> Inl UserNotFound
      | Some r \<Rightarrow> Inr (score_of uid (ledger st), r))"

subsection \<open>Request Gate\<close>

text \<open>
  Modelled from the spec: the rolling window of the rate limits of section 4.5
  (no code implements it): the number of calls of a user that are less than
  \<open>window\<close> seconds old.
\<close>

definition recent :: "nat \<Rightarrow> nat \<Rightarrow> nat \<Rightarrow> (nat \<times> nat) list \<Rightarrow> nat" where
  "recent uid window now calls =
     length (filter (\<lambda>(u, t). u = uid \<and> now < t + window) calls)"

text \<open>
  Modelled from the spec: what \<open>submitAction\<close> returns, "{newScore,
  pointsEarned, rank, newTokenId, expiresAt}" (no code declares it).
\<close>

record submitted =
  newScore :: nat
  sub_pointsEarned :: nat
  rank :: nat
  newTokenId :: nat
  sub_expiresAt :: nat

text \<open>
  Modelled from the spec: \<open>submitAction\<close> of sections 4.5 and 6 (no code
  implements it): at most 10 calls per rolling minute, checked ahead of all
  other logic and failing with no state change; then the call is counted,
  \<open>applyAction\<close> runs and the rank is read from the index. The broadcast is
  not modelled.
\<close>

definition submitAction ::
  "nat \<Rightarrow> nat \<Rightarrow> string \<Rightarrow> nat \<Rightarrow> core \<Rightarrow> (failure + submitted) \<times> core" where
  "submitAction uid tid a now st =
     (if 10 \<le> recent uid 60 now (submit_log st) then (Inl RateLimitExceeded, st)
      else
        case applyAction uid a tid now (st\<lparr>submit_log := submit_log st @ [(uid, now)]\<rparr>) of
          (Inl e, st') \<Rightarrow> (Inl e, st')
        | (Inr r, st') \<Rightarrow>
            (Inr \<lparr>newScore = ap_scoreAfter r, sub_pointsEarned = ap_pointsEarned r,
                  rank = (case rankOf uid st' of None \<Rightarrow> 0 | Some k \<Rightarrow> k),
                  newTokenId = ap_newTokenId r, sub_expiresAt = ap_expiresAt r\<rparr>,
             st'))"

text \<open>
  Modelled from the spec: \<open>startSession\<close> as the Request Gate exposes it
  (sections 4.5 and 6; no code implements it): at most 5 calls per rolling
  hour, then the Token Chain Manager's \<open>startSession\<close>.
\<close>

definition gate_startSession :: "nat \<Rightarrow> nat \<Rightarrow> core \<Rightarrow> (failure + action_token) \<times> core" where
  "gate_startSession uid now st =
     (if 5 \<le> recent uid 3600 now (start_log st) then (Inl RateLimitExceeded, st)
      else startSession uid now (st\<lparr>start_log := start_log st @ [(uid, now)]\<rparr>))"

subsection \<open>Sequences of operations\<close>

text \<open>
  Modelled from the spec: the operations a caller can issue, those of the
  Request Gate (section 6) and those of the components behind it (sections 4.1
  and 4.2); no code declares them. \<open>step\<close> is the state after one call at the
  instant given with it, whether the call succeeds or fails, and \<open>run\<close> the
  state after a sequence of calls. Each call is one step: no state in between
  is observable.
\<close>

datatype call =
    StartSession nat
  | ValidateAndRotate nat nat
  | EndSession nat
  | ApplyAction nat string nat
  | SubmitAction nat nat string
  | GateStartSession nat

fun step :: "core \<Rightarrow> nat \<times> call \<Rightarrow> core" where
  "step st (now, StartSession uid) = snd (startSession uid now st)"
| "step st (now, ValidateAndRotate uid tid) = snd (validateAndRotate uid tid now st)"
| "step st (now, EndSession uid) = snd (endSession uid now st)"
| "step st (now, ApplyAction uid a tid) = snd (applyAction uid a tid now st)"
| "step st (now, SubmitAction uid tid a) = snd (submitAction uid tid a now st)"
| "step st (now, GateStartSession uid) = snd (gate_startSession uid now st)"

definition run :: "core \<Rightarrow> (nat \<times> call) list \<Rightarrow> core" where
  "run st calls = foldl step st calls"

subsection \<open>Invariants of the token chain\<close>

text \<open>
  The notions the proofs about the chain are stated with. A token evolves by
  keeping its ids and its expiry and by never becoming active again; a session
  evolves by keeping its ids, its creation instant and its expiry. A list
  \<open>grows\<close> when every old entry is still there, at its place, evolved.
  \<open>active_in sid\<close> are the active tokens of session \<open>sid\<close>.
\<close>

definition token_evolves :: "action_token \<Rightarrow> action_token \<Rightarrow> bool" where
  "token_evolves t t' \<longleftrightarrow>
     tokenId t' = tokenId t \<and> tok_sessionId t' = tok_sessionId t
     \<and> tok_userId t' = tok_userId t \<and> tok_expiresAt t' = tok_expiresAt t
     \<and> (tok_active t' \<longrightarrow> tok_active t)"

definition session_evolves :: "session \<Rightarrow> session \<Rightarrow> bool" where
  "session_evolves s s' \<longleftrightarrow>
     sessionId s' = sessionId s \<and> userId s' = userId s
     \<and> createdAt s' = createdAt s \<and> expiresAt s' = expiresAt s"

definition grows :: "('a \<Rightarrow> 'a \<Rightarrow> bool) \<Rightarrow> 'a list \<Rightarrow> 'a list \<Rightarrow> bool" where
  "grows R xs ys \<longleftrightarrow> length xs \<le> length ys \<and> (\<forall>i < length xs. R (xs ! i) (ys ! i))"

definition active_in :: "nat \<Rightarrow> action_token list \<Rightarrow> action_token list" where
  "active_in sid ts = filter (\<lambda>t. tok_sessionId t = sid \<and> tok_active t) ts"

text \<open>
  The invariant of the reachable states: the ids that tokens and sessions carry
  were handed out by the counter, a session has at most one active token, a
  session expires \<open>sessionDuration\<close> after its creation, a token has a
  session and expires with it, and no two tokens have the same id.
\<close>

definition chain_inv :: "core \<Rightarrow> bool" where
  "chain_inv st \<longleftrightarrow>
     (\<forall>t \<in> set (tokens st). tok_sessionId t < next_id st)
     \<and> (\<forall>s \<in> set (sessions st). sessionId s < next_id st)
     \<and> (\<forall>sid. length (active_in sid (tokens st)) \<le> 1)
     \<and> (\<forall>s \<in> set (sessions st). expiresAt s = createdAt s + sessionDuration)
     \<and> (\<forall>t \<in> set (tokens st). \<forall>s \<in> set (sessions st).
           sessionId s = tok_sessionId t \<longrightarrow> tok_expiresAt t = expiresAt s)
     \<and> (\<forall>t \<in> set (tokens st). \<exists>s \<in> set (sessions st). sessionId s = tok_sessionId t)
     \<and> (\<forall>t \<in> set (tokens st). tokenId t < next_id st)
     \<and> distinct (map tokenId (tokens st))"

text \<open>
  What one operation can do to the chain: nothing but evolve tokens and
  sessions (\<open>quiet\<close>: a failed call, a lazy expiry, \<open>endSession\<close>), consume the
  active token \<open>t\<close> of a session and append its successor (\<open>rotate\<close>), or
  append a new session with its first token (\<open>start\<close>).
\<close>

inductive chain_step :: "core \<Rightarrow> core \<Rightarrow> bool" where
  quiet:
    "\<lbrakk>tokens st' = map g (tokens st); \<And>x. token_evolves x (g x);
      sessions st' = map f (sessions st); \<And>x. session_evolves x (f x);
      next_id st' = next_id st\<rbrakk> \<Longrightarrow> chain_step st st'"
| rotate:
    "\<lbrakk>t \<in> set (tokens st); tok_active t; s \<in> set (sessions st);
      sessionId s = tok_sessionId t;
      tokens st' =
        map (\<lambda>x. if tokenId x = tokenId t then x\<lparr>tok_active := False, consumedAt := c\<rparr> else x)
          (tokens st) @ [t'];
      tok_sessionId t' = tok_sessionId t; tok_expiresAt t' = expiresAt s;
      sessions st' = map f (sessions st); \<And>x. session_evolves x (f x);
      next_id st' = next_id st + 1; tokenId t' = next_id st\<rbrakk> \<Longrightarrow> chain_step st st'"
| start:
    "\<lbrakk>sessions st' = map f (sessions st) @ [s]; \<And>x. session_evolves x (f x);
      sessionId s = next_id st; expiresAt s = createdAt s + sessionDuration;
      tokens st' = tokens st @ [t]; tok_sessionId t = sessionId s;
      tok_expiresAt t = expiresAt s;
      next_id st' = next_id st + 2; tokenId t = next_id st + 1\<rbrakk> \<Longrightarrow> chain_step st st'"

section \<open>Properties of the sums\<close>

lemma foldl_add_shift:
  "foldl (\<lambda>acc curr. acc + curr) (a::int) xs = a + foldl (\<lambda>acc curr. acc + curr) 0 xs"
proof (induction xs arbitrary: a)
  case Nil
  show ?case by simp
next
  case (Cons x xs)
  have "foldl (\<lambda>acc curr. acc + curr) (a + x) xs
          = (a + x) + foldl (\<lambda>acc curr. acc + curr) 0 xs"
    by (rule Cons.IH)
  moreover have "foldl (\<lambda>acc curr. acc + curr) (0 + x) xs
          = x + foldl (\<lambda>acc curr. acc + curr) 0 xs"
    using Cons.IH [of x] by simp
  ultimately show ?case by simp
qed

lemma foldl_add_snoc:
  "foldl (\<lambda>acc curr. acc + curr) (a::int) (xs @ [x])
     = foldl (\<lambda>acc curr. acc + curr) a xs + x"
  by simp

lemma sum_to_n_b_nat: "2 * sum_to_n_b (int k) = int k * (int k + 1)"
proof (induction k)
  case 0
  show ?case by (simp add: sum_to_n_b_def)
next
  case (Suc k)
  have "sum_to_n_b (int (Suc k)) = sum_to_n_b (int k) + (int k + 1)"
    unfolding sum_to_n_b_def Let_def nat_int by simp
  with Suc show ?case by (simp add: algebra_simps)
qed

lemma sum_to_n_c_nat: "2 * sum_to_n_c (int k) = int k * (int k + 1)"
proof (induction k)
  case 0
  show ?case by (simp add: sum_to_n_c.simps)
next
  case (Suc k)
  have "sum_to_n_c (int (Suc k)) = int (Suc k) + sum_to_n_c (int k)"
    by (subst sum_to_n_c.simps) simp
  with Suc show ?case by (simp add: algebra_simps)
qed

lemma sum_to_n_a_exact: "2 * sum_to_n_a n = n * (n + 1)"
proof -
  have "even (n * (n + 1))" by simp
  then show ?thesis unfolding sum_to_n_a_def by simp
qed

text \<open>
  C8. For every integer \<open>n \<ge> 0\<close> the closed form, the array fold and the recursion
  return the same value, and that value is \<open>n (n + 1) / 2\<close>: twice it is
  \<open>n (n + 1)\<close>, so the division by two is exact.
\<close>

theorem sum_to_n_agree:
  assumes "0 \<le> n"
  shows "sum_to_n_a n = sum_to_n_b n \<and> sum_to_n_b n = sum_to_n_c n
         \<and> sum_to_n_a n = sum_to_n_c n
         \<and> 2 * sum_to_n_a n = n * (n + 1)
         \<and> 2 * sum_to_n_b n = n * (n + 1)
         \<and> 2 * sum_to_n_c n = n * (n + 1)"
proof -
  obtain k where k: "n = int k"
    using assms by (metis nat_0_le)
  have a: "2 * sum_to_n_a n = n * (n + 1)" by (rule sum_to_n_a_exact)
  have b: "2 * sum_to_n_b n = n * (n + 1)" unfolding k by (rule sum_to_n_b_nat)
  have c: "2 * sum_to_n_c n = n * (n + 1)" unfolding k by (rule sum_to_n_c_nat)
  from a b c show ?thesis by simp
qed

theorem sum_to_n_agree_witness:
  "(0::int) \<le> 5 \<and> sum_to_n_a 5 = 15 \<and> sum_to_n_b 5 = 15 \<and> sum_to_n_c 5 = 15"
  using sum_to_n_agree [of 5] by (simp add: sum_to_n_a_def)

section \<open>Properties of the item service\<close>

subsection \<open>Row ids are fresh\<close>

lemma fold_max_ge_init: "(a::int) \<le> fold max xs a"
proof (induction xs arbitrary: a)
  case Nil
  show ?case by simp
next
  case (Cons x xs)
  have "a \<le> max x a" by simp
  also have "max x a \<le> fold max xs (max x a)" by (rule Cons.IH)
  finally show ?case by simp
qed

lemma fold_max_ge_elem: "x \<in> set xs \<Longrightarrow> (x::int) \<le> fold max xs a"
proof (induction xs arbitrary: a)
  case Nil
  then show ?case by simp
next
  case (Cons y ys)
  show ?case
  proof (cases "x = y")
    case True
    have "x \<le> max y a" using True by simp
    also have "max y a \<le> fold max ys (max y a)" by (rule fold_max_ge_init)
    finally show ?thesis by simp
  next
    case False
    with Cons.prems have "x \<in> set ys" by simp
    then show ?thesis using Cons.IH by simp
  qed
qed

lemma next_rowid_fresh: "r \<in> set (items db) \<Longrightarrow> row_id r < next_rowid db"
proof -
  assume "r \<in> set (items db)"
  then have "row_id r \<in> set (map row_id (items db))" by simp
  then have "row_id r \<le> fold max (map row_id (items db)) 0" by (rule fold_max_ge_elem)
  then show ?thesis by (simp add: next_rowid_def)
qed

subsection \<open>createItem\<close>

lemma createItem_no_name:
  "\<not> truthy (name d) \<Longrightarrow> createItem db now d = (Rejected ''Name is required'', db)"
  by (simp add: createItem_def)

lemma createItem_fault:
  "truthy (name d) \<Longrightarrow> driver_fault db = Some e \<Longrightarrow> createItem db now d = (Rejected e, db)"
  by (simp add: createItem_def db_run_insert_def)

lemma createItem_ok:
  assumes "truthy (name d)" "driver_fault db = None"
  shows "createItem db now d
           = (Resolved (next_rowid db),
              db\<lparr>items := items db @
                   [\<lparr>row_id = next_rowid db, row_name = name d,
                     row_description = js_or (description d) JNull,
                     row_category = js_or (category d) JNull,
                     row_price = js_or (price d) JNull,
                     row_quantity = js_or (quantity d) (JNum 0),
                     created_at = now, updated_at = now\<rparr>],
                 sequence := next_rowid db\<rparr>)"
proof -
  from assms(1) have "name d \<noteq> JNull" "name d \<noteq> JUndefined" by auto
  with assms show ?thesis
    by (simp add: createItem_def db_run_insert_def Let_def)
qed

text \<open>
  C9, as the code has it. A payload whose name is absent, null or the empty
  string is refused with "Name is required" and the database is as before.
  A payload with a non-empty name reaches the INSERT: when the driver reports
  no error, exactly one row is appended, it carries the name, its id is the id
  of no earlier row, and the call resolves with that id; when the driver
  reports an error, the call rejects with that error and the database is as
  before.
\<close>

theorem createItem_outcomes:
  "(name d = JUndefined \<or> name d = JNull \<or> name d = JStr []
      \<longrightarrow> createItem db now d = (Rejected ''Name is required'', db))
   \<and> (\<forall>s e. name d = JStr s \<and> s \<noteq> [] \<and> driver_fault db = Some e
      \<longrightarrow> createItem db now d = (Rejected e, db))
   \<and> (\<forall>s. name d = JStr s \<and> s \<noteq> [] \<and> driver_fault db = None
      \<longrightarrow> (\<exists>row. createItem db now d
                    = (Resolved (row_id row),
                       db\<lparr>items := items db @ [row], sequence := row_id row\<rparr>)
                 \<and> row_name row = name d
                 \<and> row_id row \<notin> row_id ` set (items db)))"
proof (intro conjI allI impI)
  assume "name d = JUndefined \<or> name d = JNull \<or> name d = JStr []"
  then have "\<not> truthy (name d)" by auto
  then show "createItem db now d = (Rejected ''Name is required'', db)"
    by (rule createItem_no_name)
next
  fix s e
  assume "name d = JStr s \<and> s \<noteq> [] \<and> driver_fault db = Some e"
  then have "truthy (name d)" "driver_fault db = Some e" by auto
  then show "createItem db now d = (Rejected e, db)" by (rule createItem_fault)
next
  fix s
  assume "name d = JStr s \<and> s \<noteq> [] \<and> driver_fault db = None"
  then have "truthy (name d)" "driver_fault db = None" by auto
  then have run: "createItem db now d
           = (Resolved (next_rowid db),
              db\<lparr>items := items db @
                   [\<lparr>row_id = next_rowid db, row_name = name d,
                     row_description = js_or (description d) JNull,
                     row_category = js_or (category d) JNull,
                     row_price = js_or (price d) JNull,
                     row_quantity = js_or (quantity d) (JNum 0),
                     created_at = now, updated_at = now\<rparr>],
                 sequence := next_rowid db\<rparr>)"
    by (rule createItem_ok)
  define row where "row = \<lparr>row_id = next_rowid db, row_name = name d,
                     row_description = js_or (description d) JNull,
                     row_category = js_or (category d) JNull,
                     row_price = js_or (price d) JNull,
                     row_quantity = js_or (quantity d) (JNum 0),
                     created_at = now, updated_at = now\<rparr>"
  have row: "createItem db now d
       = (Resolved (row_id row), db\<lparr>items := items db @ [row], sequence := row_id row\<rparr>)"
    "row_name row = name d" "row_id row = next_rowid db"
    using run by (simp_all add: row_def)
  have "row_id row \<notin> row_id ` set (items db)"
    using next_rowid_fresh [of _ db] row(3) by force
  with row show "\<exists>row. createItem db now d
                    = (Resolved (row_id row),
                       db\<lparr>items := items db @ [row], sequence := row_id row\<rparr>)
                 \<and> row_name row = name d
                 \<and> row_id row \<notin> row_id ` set (items db)" by blast
qed


text \<open>
  C9 as it is written promises a new row and a resolved call for every payload
  with a non-empty name. With a database whose items table was never created
  the statement fails, the callback's \<^verbatim>\<open>if (err) reject(err)\<close> runs, no row
  is inserted and the call rejects.
\<close>

theorem createItem_driver_error_counterexample:
  "createItem
     \<lparr>items = [], sequence = 0,
      driver_fault = Some ''SQLITE_ERROR: no such table: items''\<rparr>
     0
     \<lparr>name = JStr ''pen'', description = JUndefined, category = JUndefined,
      price = JUndefined, quantity = JUndefined\<rparr>
   = (Rejected ''SQLITE_ERROR: no such table: items'',
      \<lparr>items = [], sequence = 0,
       driver_fault = Some ''SQLITE_ERROR: no such table: items''\<rparr>)"
  by (simp add: createItem_def db_run_insert_def)

text \<open>
  The three cases of createItem at concrete inputs: an empty name, a locked
  database, and a successful insert after four earlier ids.
\<close>

theorem createItem_outcomes_witness:
  "createItem \<lparr>items = [], sequence = 0, driver_fault = None\<rparr> 7
     \<lparr>name = JStr [], description = JStr ''blue'', category = JUndefined,
      price = JNum 3, quantity = JUndefined\<rparr>
   = (Rejected ''Name is required'', \<lparr>items = [], sequence = 0, driver_fault = None\<rparr>)
   \<and> createItem \<lparr>items = [], sequence = 0, driver_fault = Some ''SQLITE_BUSY''\<rparr> 7
     \<lparr>name = JStr ''pen'', description = JStr ''blue'', category = JUndefined,
      price = JNum 3, quantity = JUndefined\<rparr>
   = (Rejected ''SQLITE_BUSY'',
      \<lparr>items = [], sequence = 0, driver_fault = Some ''SQLITE_BUSY''\<rparr>)
   \<and> (\<exists>row. createItem \<lparr>items = [], sequence = 4, driver_fault = None\<rparr> 7
     \<lparr>name = JStr ''pen'', description = JStr ''blue'', category = JUndefined,
      price = JNum 3, quantity = JUndefined\<rparr>
   = (Resolved (row_id row),
      \<lparr>items = [row], sequence = row_id row, driver_fault = None\<rparr>)
     \<and> row_name row = JStr ''pen'')"
  using
    createItem_outcomes [of "\<lparr>name = JStr [], description = JStr ''blue'', category = JUndefined,
      price = JNum 3, quantity = JUndefined\<rparr>" "\<lparr>items = [], sequence = 0, driver_fault = None\<rparr>" 7]
    createItem_outcomes [of "\<lparr>name = JStr ''pen'', description = JStr ''blue'', category = JUndefined,
      price = JNum 3, quantity = JUndefined\<rparr>" "\<lparr>items = [], sequence = 0, driver_fault = Some ''SQLITE_BUSY''\<rparr>" 7]
    createItem_outcomes [of "\<lparr>name = JStr ''pen'', description = JStr ''blue'', category = JUndefined,
      price = JNum 3, quantity = JUndefined\<rparr>" "\<lparr>items = [], sequence = 4, driver_fault = None\<rparr>" 7]
  by simp

subsection \<open>updateItem\<close>

lemma updates_empty_iff:
  "updates d = [] \<longleftrightarrow>
     name d = JUndefined \<and> description d = JUndefined \<and> category d = JUndefined
     \<and> price d = JUndefined \<and> quantity d = JUndefined"
  by (simp add: updates_def)

lemma map_unselected: "filter P xs = [] \<Longrightarrow> map (\<lambda>r. if P r then f r else r) xs = xs"
  by (induction xs) (auto split: if_splits)

lemma updateItem_no_fields:
  "updates d = [] \<Longrightarrow> updateItem same_id db now item_id d = (Rejected ''No fields to update'', db)"
  by (simp add: updateItem_def)

lemma updateItem_fault:
  "updates d \<noteq> [] \<Longrightarrow> driver_fault db = Some e
     \<Longrightarrow> updateItem same_id db now item_id d = (Rejected e, db)"
  by (simp add: updateItem_def db_run_update_def)

lemma updateItem_not_found:
  assumes "updates d \<noteq> []" "driver_fault db = None"
    and "filter (\<lambda>r. same_id item_id (row_id r)) (items db) = []"
  shows "updateItem same_id db now item_id d = (Rejected ''Item not found'', db)"
  using assms by (simp add: updateItem_def db_run_update_def map_unselected)

lemma updateItem_unresolved_unchanged:
  "fst (updateItem same_id db now item_id d) \<noteq> Resolved ()
     \<Longrightarrow> snd (updateItem same_id db now item_id d) = db"
  by (auto simp: updateItem_def db_run_update_def Let_def map_unselected
           split: option.splits if_splits)

lemma updateItem_resolved:
  "fst (updateItem same_id db now item_id d) = Resolved ()
     \<Longrightarrow> filter (\<lambda>r. same_id item_id (row_id r)) (items db) \<noteq> []
         \<and> snd (updateItem same_id db now item_id d)
             = db\<lparr>items := map (\<lambda>r. if same_id item_id (row_id r)
                                     then apply_updates (updates d) now r else r)
                              (items db)\<rparr>"
  by (auto simp: updateItem_def db_run_update_def Let_def
           split: option.splits if_splits)


lemma updateItem_driver_error:
  assumes "updates d \<noteq> []"
    and "fst (db_run_update same_id db now (updates d) item_id) = Inl e"
  shows "updateItem same_id db now item_id d = (Rejected e, db)"
proof -
  have "snd (db_run_update same_id db now (updates d) item_id) = db"
    using assms(2)
    by (auto simp: db_run_update_def Let_def split: option.splits if_splits)
  with assms(2) have "db_run_update same_id db now (updates d) item_id = (Inl e, db)"
    by (simp add: prod_eq_iff)
  with assms(1) show ?thesis by (simp add: updateItem_def)
qed

lemma updates_null_name: "(Name, JNull) \<in> set (updates d) \<longleftrightarrow> name d = JNull"
  by (auto simp: updates_def split: if_splits)

lemma updateItem_null_name:
  assumes "name d = JNull" "driver_fault db = None"
    and "filter (\<lambda>r. same_id item_id (row_id r)) (items db) \<noteq> []"
  shows "updateItem same_id db now item_id d
           = (Rejected ''SQLITE_CONSTRAINT: NOT NULL constraint failed: items.name'', db)"
proof -
  from assms(1) have "(Name, JNull) \<in> set (updates d)" by (simp add: updates_null_name)
  moreover from this have "updates d \<noteq> []" by auto
  ultimately show ?thesis
    using assms(2,3) by (simp add: updateItem_def db_run_update_def)
qed

lemma updateItem_found:
  assumes "updates d \<noteq> []" "name d \<noteq> JNull" "driver_fault db = None"
    and "filter (\<lambda>r. same_id item_id (row_id r)) (items db) \<noteq> []"
  shows "fst (updateItem same_id db now item_id d) = Resolved ()"
proof -
  from assms(2) have "(Name, JNull) \<notin> set (updates d)" by (simp add: updates_null_name)
  with assms(1,3,4) show ?thesis
    by (simp add: updateItem_def db_run_update_def)
qed

text \<open>
  C10, as the code has it. With none of the five fields in the payload the call
  is refused with "No fields to update" and the database is as before. With at
  least one field: a driver error rejects the call with that error; without a
  driver error and with no row of that id the call rejects with
  "Item not found". Whenever the call does not resolve the database is as
  before, and when it resolves at least one row has that id and exactly the
  rows with that id were rewritten. The SET list is empty exactly when all
  five fields are \<^verbatim>\<open>undefined\<close>. Every error that \<^verbatim>\<open>db.run\<close> hands to
  the callback rejects the call with that error, whatever its cause; one such
  error is the NOT NULL constraint, when the name is \<^verbatim>\<open>null\<close> and a row
  has that id. In the case that is left (a field present, a name that is not
  \<^verbatim>\<open>null\<close>, no failing statement, a row of that id) the call resolves.
\<close>

theorem updateItem_outcomes:
  "(name d = JUndefined \<and> description d = JUndefined \<and> category d = JUndefined
      \<and> price d = JUndefined \<and> quantity d = JUndefined
      \<longrightarrow> updateItem same_id db now item_id d = (Rejected ''No fields to update'', db))
   \<and> (\<forall>e. updates d \<noteq> [] \<and> driver_fault db = Some e
      \<longrightarrow> updateItem same_id db now item_id d = (Rejected e, db))
   \<and> (updates d \<noteq> [] \<and> driver_fault db = None
        \<and> (\<forall>r \<in> set (items db). \<not> same_id item_id (row_id r))
      \<longrightarrow> updateItem same_id db now item_id d = (Rejected ''Item not found'', db))
   \<and> (fst (updateItem same_id db now item_id d) \<noteq> Resolved ()
      \<longrightarrow> snd (updateItem same_id db now item_id d) = db)
   \<and> (fst (updateItem same_id db now item_id d) = Resolved ()
      \<longrightarrow> (\<exists>r \<in> set (items db). same_id item_id (row_id r))
          \<and> snd (updateItem same_id db now item_id d)
             = db\<lparr>items := map (\<lambda>r. if same_id item_id (row_id r)
                                     then apply_updates (updates d) now r else r)
                              (items db)\<rparr>)
   \<and> (updates d = [] \<longleftrightarrow>
        name d = JUndefined \<and> description d = JUndefined \<and> category d = JUndefined
        \<and> price d = JUndefined \<and> quantity d = JUndefined)
   \<and> (\<forall>e. updates d \<noteq> []
           \<and> fst (db_run_update same_id db now (updates d) item_id) = Inl e
      \<longrightarrow> updateItem same_id db now item_id d = (Rejected e, db))
   \<and> (name d = JNull \<and> driver_fault db = None
        \<and> (\<exists>r \<in> set (items db). same_id item_id (row_id r))
      \<longrightarrow> updateItem same_id db now item_id d
          = (Rejected ''SQLITE_CONSTRAINT: NOT NULL constraint failed: items.name'', db))
   \<and> (updates d \<noteq> [] \<and> name d \<noteq> JNull \<and> driver_fault db = None
        \<and> (\<exists>r \<in> set (items db). same_id item_id (row_id r))
      \<longrightarrow> fst (updateItem same_id db now item_id d) = Resolved ())"
proof -
  have rows: "(\<exists>r \<in> set (items db). same_id item_id (row_id r))
      \<longleftrightarrow> filter (\<lambda>r. same_id item_id (row_id r)) (items db) \<noteq> []"
    by (simp add: filter_empty_conv)
  have driver: "\<forall>e. updates d \<noteq> []
           \<and> fst (db_run_update same_id db now (updates d) item_id) = Inl e
      \<longrightarrow> updateItem same_id db now item_id d = (Rejected e, db)"
    using updateItem_driver_error by blast
  have null: "name d = JNull \<and> driver_fault db = None
        \<and> (\<exists>r \<in> set (items db). same_id item_id (row_id r))
      \<longrightarrow> updateItem same_id db now item_id d
          = (Rejected ''SQLITE_CONSTRAINT: NOT NULL constraint failed: items.name'', db)"
    unfolding rows using updateItem_null_name by blast
  have found: "updates d \<noteq> [] \<and> name d \<noteq> JNull \<and> driver_fault db = None
        \<and> (\<exists>r \<in> set (items db). same_id item_id (row_id r))
      \<longrightarrow> fst (updateItem same_id db now item_id d) = Resolved ()"
    unfolding rows using updateItem_found by blast
  have none: "name d = JUndefined \<and> description d = JUndefined \<and> category d = JUndefined
      \<and> price d = JUndefined \<and> quantity d = JUndefined
      \<longrightarrow> updateItem same_id db now item_id d = (Rejected ''No fields to update'', db)"
    using updateItem_no_fields [of d same_id db now item_id] updates_empty_iff [of d] by blast
  have fault: "\<forall>e. updates d \<noteq> [] \<and> driver_fault db = Some e
      \<longrightarrow> updateItem same_id db now item_id d = (Rejected e, db)"
    using updateItem_fault by blast
  have missing: "updates d \<noteq> [] \<and> driver_fault db = None
        \<and> (\<forall>r \<in> set (items db). \<not> same_id item_id (row_id r))
      \<longrightarrow> updateItem same_id db now item_id d = (Rejected ''Item not found'', db)"
  proof
    assume a: "updates d \<noteq> [] \<and> driver_fault db = None
        \<and> (\<forall>r \<in> set (items db). \<not> same_id item_id (row_id r))"
    then have "filter (\<lambda>r. same_id item_id (row_id r)) (items db) = []"
      by (simp add: filter_empty_conv)
    with a show "updateItem same_id db now item_id d = (Rejected ''Item not found'', db)"
      using updateItem_not_found by blast
  qed
  have unchanged: "fst (updateItem same_id db now item_id d) \<noteq> Resolved ()
      \<longrightarrow> snd (updateItem same_id db now item_id d) = db"
    using updateItem_unresolved_unchanged by blast
  have resolved: "fst (updateItem same_id db now item_id d) = Resolved ()
      \<longrightarrow> (\<exists>r \<in> set (items db). same_id item_id (row_id r))
          \<and> snd (updateItem same_id db now item_id d)
             = db\<lparr>items := map (\<lambda>r. if same_id item_id (row_id r)
                                     then apply_updates (updates d) now r else r)
                              (items db)\<rparr>"
  proof
    assume "fst (updateItem same_id db now item_id d) = Resolved ()"
    then have r: "filter (\<lambda>r. same_id item_id (row_id r)) (items db) \<noteq> []
         \<and> snd (updateItem same_id db now item_id d)
             = db\<lparr>items := map (\<lambda>r. if same_id item_id (row_id r)
                                     then apply_updates (updates d) now r else r)
                              (items db)\<rparr>"
      by (rule updateItem_resolved)
    then have "\<exists>r \<in> set (items db). same_id item_id (row_id r)"
      by (simp add: filter_empty_conv)
    with r show "(\<exists>r \<in> set (items db). same_id item_id (row_id r))
          \<and> snd (updateItem same_id db now item_id d)
             = db\<lparr>items := map (\<lambda>r. if same_id item_id (row_id r)
                                     then apply_updates (updates d) now r else r)
                              (items db)\<rparr>" by blast
  qed
  note shape = updates_empty_iff [of d]
  show ?thesis
    by (intro conjI) (fact none fault missing unchanged resolved shape driver null found)+
qed

text \<open>
  C10 as it is written promises "Item not found" whenever a field is present
  and no row has the id. The table holds the single row 1 and the database is
  locked by another writer: a rename of item 2, which no row is, rejects with
  the driver's error and not with "Item not found".
\<close>

theorem updateItem_driver_error_counterexample:
  "updateItem decimal_id
     \<lparr>items =
        [\<lparr>row_id = 1, row_name = JStr ''pen'', row_description = JNull,
          row_category = JNull, row_price = JNum 3, row_quantity = JNum 0,
          created_at = 7, updated_at = 7\<rparr>],
       sequence = 1, driver_fault = Some ''SQLITE_BUSY: database is locked''\<rparr>
     9 ''2''
     \<lparr>name = JStr ''ink'', description = JUndefined, category = JUndefined,
      price = JUndefined, quantity = JUndefined\<rparr>
   = (Rejected ''SQLITE_BUSY: database is locked'',
      \<lparr>items =
        [\<lparr>row_id = 1, row_name = JStr ''pen'', row_description = JNull,
          row_category = JNull, row_price = JNum 3, row_quantity = JNum 0,
          created_at = 7, updated_at = 7\<rparr>],
       sequence = 1, driver_fault = Some ''SQLITE_BUSY: database is locked''\<rparr>)
   \<and> \<not> decimal_id ''2'' 1"
  by (simp add: updateItem_def db_run_update_def updates_def decimal_id_def)


text \<open>
  The cases of updateItem on a table with the single row 1: no fields, a
  locked database, an id that no row has, a successful rename, and a
  \<^verbatim>\<open>null\<close> name for row 1, which the NOT NULL constraint refuses.
\<close>

theorem updateItem_outcomes_witness:
  "updateItem decimal_id
      \<lparr>items =
        [\<lparr>row_id = 1, row_name = JStr ''pen'', row_description = JNull,
          row_category = JNull, row_price = JNum 3, row_quantity = JNum 0,
          created_at = 7, updated_at = 7\<rparr>],
       sequence = 1, driver_fault = None\<rparr>
      9 ''1''
      \<lparr>name = JUndefined, description = JUndefined, category = JUndefined,
       price = JUndefined, quantity = JUndefined\<rparr>
     = (Rejected ''No fields to update'',
      \<lparr>items =
        [\<lparr>row_id = 1, row_name = JStr ''pen'', row_description = JNull,
          row_category = JNull, row_price = JNum 3, row_quantity = JNum 0,
          created_at = 7, updated_at = 7\<rparr>],
       sequence = 1, driver_fault = None\<rparr>)
   \<and> updateItem decimal_id
      \<lparr>items =
        [\<lparr>row_id = 1, row_name = JStr ''pen'', row_description = JNull,
          row_category = JNull, row_price = JNum 3, row_quantity = JNum 0,
          created_at = 7, updated_at = 7\<rparr>],
       sequence = 1, driver_fault = Some ''SQLITE_BUSY''\<rparr>
      9 ''1''
      \<lparr>name = JStr ''ink'', description = JUndefined, category = JUndefined,
       price = JUndefined, quantity = JUndefined\<rparr>
     = (Rejected ''SQLITE_BUSY'',
      \<lparr>items =
        [\<lparr>row_id = 1, row_name = JStr ''pen'', row_description = JNull,
          row_category = JNull, row_price = JNum 3, row_quantity = JNum 0,
          created_at = 7, updated_at = 7\<rparr>],
       sequence = 1, driver_fault = Some ''SQLITE_BUSY''\<rparr>)
   \<and> updateItem decimal_id
      \<lparr>items =
        [\<lparr>row_id = 1, row_name = JStr ''pen'', row_description = JNull,
          row_category = JNull, row_price = JNum 3, row_quantity = JNum 0,
          created_at = 7, updated_at = 7\<rparr>],
       sequence = 1, driver_fault = None\<rparr>
      9 ''2''
      \<lparr>name = JStr ''ink'', description = JUndefined, category = JUndefined,
       price = JUndefined, quantity = JUndefined\<rparr>
     = (Rejected ''Item not found'',
      \<lparr>items =
        [\<lparr>row_id = 1, row_name = JStr ''pen'', row_description = JNull,
          row_category = JNull, row_price = JNum 3, row_quantity = JNum 0,
          created_at = 7, updated_at = 7\<rparr>],
       sequence = 1, driver_fault = None\<rparr>)
   \<and> updateItem decimal_id
      \<lparr>items =
        [\<lparr>row_id = 1, row_name = JStr ''pen'', row_description = JNull,
          row_category = JNull, row_price = JNum 3, row_quantity = JNum 0,
          created_at = 7, updated_at = 7\<rparr>],
       sequence = 1, driver_fault = None\<rparr>
      9 ''1''
      \<lparr>name = JStr ''ink'', description = JUndefined, category = JUndefined,
       price = JUndefined, quantity = JUndefined\<rparr>
     = (Resolved (),
      \<lparr>items =
        [\<lparr>row_id = 1, row_name = JStr ''ink'', row_description = JNull,
          row_category = JNull, row_price = JNum 3, row_quantity = JNum 0,
          created_at = 7, updated_at = 9\<rparr>],
       sequence = 1, driver_fault = None\<rparr>)
   \<and> updateItem decimal_id
      \<lparr>items =
        [\<lparr>row_id = 1, row_name = JStr ''pen'', row_description = JNull,
          row_category = JNull, row_price = JNum 3, row_quantity = JNum 0,
          created_at = 7, updated_at = 7\<rparr>],
       sequence = 1, driver_fault = None\<rparr>
      9 ''1''
      \<lparr>name = JNull, description = JStr ''blue'', category = JUndefined,
       price = JUndefined, quantity = JUndefined\<rparr>
     = (Rejected ''SQLITE_CONSTRAINT: NOT NULL constraint failed: items.name'',
      \<lparr>items =
        [\<lparr>row_id = 1, row_name = JStr ''pen'', row_description = JNull,
          row_category = JNull, row_price = JNum 3, row_quantity = JNum 0,
          created_at = 7, updated_at = 7\<rparr>],
       sequence = 1, driver_fault = None\<rparr>)"
proof -
  have a: "updateItem decimal_id
      \<lparr>items =
        [\<lparr>row_id = 1, row_name = JStr ''pen'', row_description = JNull,
          row_category = JNull, row_price = JNum 3, row_quantity = JNum 0,
          created_at = 7, updated_at = 7\<rparr>],
       sequence = 1, driver_fault = None\<rparr>
      9 ''1''
      \<lparr>name = JUndefined, description = JUndefined, category = JUndefined,
       price = JUndefined, quantity = JUndefined\<rparr>
     = (Rejected ''No fields to update'',
      \<lparr>items =
        [\<lparr>row_id = 1, row_name = JStr ''pen'', row_description = JNull,
          row_category = JNull, row_price = JNum 3, row_quantity = JNum 0,
          created_at = 7, updated_at = 7\<rparr>],
       sequence = 1, driver_fault = None\<rparr>)"
    using updateItem_outcomes
        [of "\<lparr>name = JUndefined, description = JUndefined, category = JUndefined,
       price = JUndefined, quantity = JUndefined\<rparr>"
          decimal_id
          "\<lparr>items =
        [\<lparr>row_id = 1, row_name = JStr ''pen'', row_description = JNull,
          row_category = JNull, row_price = JNum 3, row_quantity = JNum 0,
          created_at = 7, updated_at = 7\<rparr>],
       sequence = 1, driver_fault = None\<rparr>"
          9 "''1''"]
    by simp
  have b: "updateItem decimal_id
      \<lparr>items =
        [\<lparr>row_id = 1, row_name = JStr ''pen'', row_description = JNull,
          row_category = JNull, row_price = JNum 3, row_quantity = JNum 0,
          created_at = 7, updated_at = 7\<rparr>],
       sequence = 1, driver_fault = Some ''SQLITE_BUSY''\<rparr>
      9 ''1''
      \<lparr>name = JStr ''ink'', description = JUndefined, category = JUndefined,
       price = JUndefined, quantity = JUndefined\<rparr>
     = (Rejected ''SQLITE_BUSY'',
      \<lparr>items =
        [\<lparr>row_id = 1, row_name = JStr ''pen'', row_description = JNull,
          row_category = JNull, row_price = JNum 3, row_quantity = JNum 0,
          created_at = 7, updated_at = 7\<rparr>],
       sequence = 1, driver_fault = Some ''SQLITE_BUSY''\<rparr>)"
    using updateItem_outcomes
        [of "\<lparr>name = JStr ''ink'', description = JUndefined, category = JUndefined,
       price = JUndefined, quantity = JUndefined\<rparr>"
          decimal_id
          "\<lparr>items =
        [\<lparr>row_id = 1, row_name = JStr ''pen'', row_description = JNull,
          row_category = JNull, row_price = JNum 3, row_quantity = JNum 0,
          created_at = 7, updated_at = 7\<rparr>],
       sequence = 1, driver_fault = Some ''SQLITE_BUSY''\<rparr>"
          9 "''1''"]
    by (simp add: updates_def)
  have c: "updateItem decimal_id
      \<lparr>items =
        [\<lparr>row_id = 1, row_name = JStr ''pen'', row_description = JNull,
          row_category = JNull, row_price = JNum 3, row_quantity = JNum 0,
          created_at = 7, updated_at = 7\<rparr>],
       sequence = 1, driver_fault = None\<rparr>
      9 ''2''
      \<lparr>name = JStr ''ink'', description = JUndefined, category = JUndefined,
       price = JUndefined, quantity = JUndefined\<rparr>
     = (Rejected ''Item not found'',
      \<lparr>items =
        [\<lparr>row_id = 1, row_name = JStr ''pen'', row_description = JNull,
          row_category = JNull, row_price = JNum 3, row_quantity = JNum 0,
          created_at = 7, updated_at = 7\<rparr>],
       sequence = 1, driver_fault = None\<rparr>)"
    using updateItem_outcomes
        [of "\<lparr>name = JStr ''ink'', description = JUndefined, category = JUndefined,
       price = JUndefined, quantity = JUndefined\<rparr>"
          decimal_id
          "\<lparr>items =
        [\<lparr>row_id = 1, row_name = JStr ''pen'', row_description = JNull,
          row_category = JNull, row_price = JNum 3, row_quantity = JNum 0,
          created_at = 7, updated_at = 7\<rparr>],
       sequence = 1, driver_fault = None\<rparr>"
          9 "''2''"]
    by (simp add: updates_def decimal_id_def)
  have r: "fst (updateItem decimal_id
      \<lparr>items =
        [\<lparr>row_id = 1, row_name = JStr ''pen'', row_description = JNull,
          row_category = JNull, row_price = JNum 3, row_quantity = JNum 0,
          created_at = 7, updated_at = 7\<rparr>],
       sequence = 1, driver_fault = None\<rparr>
      9 ''1''
      \<lparr>name = JStr ''ink'', description = JUndefined, category = JUndefined,
       price = JUndefined, quantity = JUndefined\<rparr>) = Resolved ()"
    by (simp add: updateItem_def db_run_update_def updates_def decimal_id_def)
  have d: "updateItem decimal_id
      \<lparr>items =
        [\<lparr>row_id = 1, row_name = JStr ''pen'', row_description = JNull,
          row_category = JNull, row_price = JNum 3, row_quantity = JNum 0,
          created_at = 7, updated_at = 7\<rparr>],
       sequence = 1, driver_fault = None\<rparr>
      9 ''1''
      \<lparr>name = JStr ''ink'', description = JUndefined, category = JUndefined,
       price = JUndefined, quantity = JUndefined\<rparr>
     = (Resolved (),
      \<lparr>items =
        [\<lparr>row_id = 1, row_name = JStr ''ink'', row_description = JNull,
          row_category = JNull, row_price = JNum 3, row_quantity = JNum 0,
          created_at = 7, updated_at = 9\<rparr>],
       sequence = 1, driver_fault = None\<rparr>)"
    using r updateItem_outcomes
        [of "\<lparr>name = JStr ''ink'', description = JUndefined, category = JUndefined,
       price = JUndefined, quantity = JUndefined\<rparr>"
          decimal_id
          "\<lparr>items =
        [\<lparr>row_id = 1, row_name = JStr ''pen'', row_description = JNull,
          row_category = JNull, row_price = JNum 3, row_quantity = JNum 0,
          created_at = 7, updated_at = 7\<rparr>],
       sequence = 1, driver_fault = None\<rparr>"
          9 "''1''"]
    by (simp add: prod_eq_iff updates_def decimal_id_def apply_updates_def)
  have e: "updateItem decimal_id
      \<lparr>items =
        [\<lparr>row_id = 1, row_name = JStr ''pen'', row_description = JNull,
          row_category = JNull, row_price = JNum 3, row_quantity = JNum 0,
          created_at = 7, updated_at = 7\<rparr>],
       sequence = 1, driver_fault = None\<rparr>
      9 ''1''
      \<lparr>name = JNull, description = JStr ''blue'', category = JUndefined,
       price = JUndefined, quantity = JUndefined\<rparr>
     = (Rejected ''SQLITE_CONSTRAINT: NOT NULL constraint failed: items.name'',
      \<lparr>items =
        [\<lparr>row_id = 1, row_name = JStr ''pen'', row_description = JNull,
          row_category = JNull, row_price = JNum 3, row_quantity = JNum 0,
          created_at = 7, updated_at = 7\<rparr>],
       sequence = 1, driver_fault = None\<rparr>)"
    using updateItem_outcomes
        [of "\<lparr>name = JNull, description = JStr ''blue'', category = JUndefined,
       price = JUndefined, quantity = JUndefined\<rparr>"
          decimal_id
          "\<lparr>items =
        [\<lparr>row_id = 1, row_name = JStr ''pen'', row_description = JNull,
          row_category = JNull, row_price = JNum 3, row_quantity = JNum 0,
          created_at = 7, updated_at = 7\<rparr>],
       sequence = 1, driver_fault = None\<rparr>"
          9 "''1''"]
    by (simp add: decimal_id_def)
  from a b c d e show ?thesis by blast
qed

section \<open>Properties of the token chain\<close>

subsection \<open>Lists that grow\<close>

lemma grows_refl: "(\<And>x. R x x) \<Longrightarrow> grows R xs xs"
  by (simp add: grows_def)

lemma grows_trans:
  assumes "\<And>x y z. R x y \<Longrightarrow> R y z \<Longrightarrow> R x z" "grows R xs ys" "grows R ys zs"
  shows "grows R xs zs"
  using assms unfolding grows_def
  by (meson le_trans less_le_trans)

lemma grows_map_append:
  assumes "\<And>x. R x (f x)"
  shows "grows R xs (map f xs @ zs)"
  using assms by (simp add: grows_def nth_append)

lemma grows_append:
  assumes "\<And>x. R x x"
  shows "grows R xs (xs @ zs)"
  using assms by (simp add: grows_def nth_append)

lemma grows_map:
  assumes "\<And>x. R x (f x)"
  shows "grows R xs (map f xs)"
  using assms by (simp add: grows_def)

lemma token_evolves_refl: "token_evolves t t"
  by (simp add: token_evolves_def)

lemma token_evolves_trans: "token_evolves a b \<Longrightarrow> token_evolves b c \<Longrightarrow> token_evolves a c"
  by (simp add: token_evolves_def)

lemma session_evolves_refl: "session_evolves t t"
  by (simp add: session_evolves_def)

lemma session_evolves_trans: "session_evolves a b \<Longrightarrow> session_evolves b c \<Longrightarrow> session_evolves a c"
  by (simp add: session_evolves_def)

lemma session_evolves_expire: "session_evolves s (expire now s)"
  by (simp add: session_evolves_def expire_def)

subsection \<open>What the operations do to the chain\<close>

lemma find_token_Some:
  "find_token tid st = Some t \<Longrightarrow> t \<in> set (tokens st) \<and> tokenId t = tid"
  unfolding find_token_def by (auto simp: find_Some_iff)

lemma find_session_Some:
  "find_session sid st = Some s \<Longrightarrow> s \<in> set (sessions st) \<and> sessionId s = sid"
  unfolding find_session_def by (auto simp: find_Some_iff)

text \<open>The three ways validateAndRotate can leave the state.\<close>

lemma validateAndRotate_effect:
  "(\<exists>e. validateAndRotate uid tid now st = (Inl e, st))
   \<or> (\<exists>sid. validateAndRotate uid tid now st
         = (Inl SessionExpired,
            st\<lparr>sessions := map (\<lambda>x. if sessionId x = sid then expire now x else x) (sessions st)\<rparr>))
   \<or> (\<exists>t s. t \<in> set (tokens st) \<and> tokenId t = tid \<and> tok_active t
         \<and> s \<in> set (sessions st) \<and> sessionId s = tok_sessionId t
         \<and> validateAndRotate uid tid now st =
            (Inr \<lparr>tokenId = next_id st, tok_sessionId = tok_sessionId t,
                  tok_userId = tok_userId t, tok_expiresAt = expiresAt s,
                  issuedAt = now, tok_active = True, consumedAt = None\<rparr>,
             st\<lparr>tokens :=
                  map (\<lambda>x. if tokenId x = tid
                            then x\<lparr>tok_active := False, consumedAt := Some now\<rparr> else x)
                    (tokens st)
                  @ [\<lparr>tokenId = next_id st, tok_sessionId = tok_sessionId t,
                      tok_userId = tok_userId t, tok_expiresAt = expiresAt s,
                      issuedAt = now, tok_active = True, consumedAt = None\<rparr>],
                sessions :=
                  map (\<lambda>x. if sessionId x = tok_sessionId t
                            then x\<lparr>actionsCompleted := actionsCompleted x + 1\<rparr> else x)
                    (sessions st),
                next_id := next_id st + 1\<rparr>))"
proof (cases "find_token tid st")
  case None
  then show ?thesis by (simp add: validateAndRotate_def)
next
  case (Some t)
  note t = this find_token_Some [OF this]
  show ?thesis
  proof (cases "tok_userId t \<noteq> uid \<or> \<not> tok_active t")
    case True
    with t show ?thesis by (auto simp: validateAndRotate_def)
  next
    case False
    note ok = this
    show ?thesis
    proof (cases "find_session (tok_sessionId t) st")
      case None
      with t ok show ?thesis by (simp add: validateAndRotate_def)
    next
      case (Some s)
      note s = this find_session_Some [OF this]
      show ?thesis
      proof (cases "active s \<and> now \<le> expiresAt s")
        case False
        with t ok s have "validateAndRotate uid tid now st
         = (Inl SessionExpired,
            st\<lparr>sessions := map (\<lambda>x. if sessionId x = sessionId s then expire now x else x) (sessions st)\<rparr>)"
          by (simp add: validateAndRotate_def)
        then show ?thesis by blast
      next
        case True
        with t ok s have "validateAndRotate uid tid now st =
            (Inr \<lparr>tokenId = next_id st, tok_sessionId = tok_sessionId t,
                  tok_userId = tok_userId t, tok_expiresAt = expiresAt s,
                  issuedAt = now, tok_active = True, consumedAt = None\<rparr>,
             st\<lparr>tokens :=
                  map (\<lambda>x. if tokenId x = tid
                            then x\<lparr>tok_active := False, consumedAt := Some now\<rparr> else x)
                    (tokens st)
                  @ [\<lparr>tokenId = next_id st, tok_sessionId = tok_sessionId t,
                      tok_userId = tok_userId t, tok_expiresAt = expiresAt s,
                      issuedAt = now, tok_active = True, consumedAt = None\<rparr>],
                sessions :=
                  map (\<lambda>x. if sessionId x = tok_sessionId t
                            then x\<lparr>actionsCompleted := actionsCompleted x + 1\<rparr> else x)
                    (sessions st),
                next_id := next_id st + 1\<rparr>)"
          by (simp add: validateAndRotate_def Let_def)
        with t ok s show ?thesis by blast
      qed
    qed
  qed
qed


lemma chain_step_refl: "chain_step st st"
  by (rule chain_step.quiet [where g = "\<lambda>x. x" and f = "\<lambda>x. x"])
     (simp_all add: token_evolves_refl session_evolves_refl)

lemma chain_step_frame:
  assumes "chain_step st st'" "tokens st'' = tokens st'" "sessions st'' = sessions st'"
    "next_id st'' = next_id st'"
  shows "chain_step st st''"
  using assms
proof (induction rule: chain_step.induct)
  case (quiet st' g st f)
  then show ?case by (intro chain_step.quiet [where g = g and f = f]) simp_all
next
  case (rotate t st s st' c t' f)
  then show ?case
    by (intro chain_step.rotate [where t = t and s = s and c = c and t' = t' and f = f]) simp_all
next
  case (start st' f st s t)
  then show ?case
    by (intro chain_step.start [where f = f and s = s and t = t]) simp_all
qed

lemma chain_step_frame_left:
  assumes "chain_step st st'" "tokens st0 = tokens st" "sessions st0 = sessions st"
    "next_id st0 = next_id st"
  shows "chain_step st0 st'"
  using assms
proof (induction rule: chain_step.induct)
  case (quiet st' g st f)
  then show ?case by (intro chain_step.quiet [where g = g and f = f]) simp_all
next
  case (rotate t st s st' c t' f)
  then show ?case
    by (intro chain_step.rotate [where t = t and s = s and c = c and t' = t' and f = f]) simp_all
next
  case (start st' f st s t)
  then show ?case
    by (intro chain_step.start [where f = f and s = s and t = t]) simp_all
qed

lemma validateAndRotate_chain_step: "chain_step st (snd (validateAndRotate uid tid now st))"
proof -
  consider
    (same) e where "validateAndRotate uid tid now st = (Inl e, st)"
  | (expired) sid where "validateAndRotate uid tid now st
         = (Inl SessionExpired,
            st\<lparr>sessions := map (\<lambda>x. if sessionId x = sid then expire now x else x) (sessions st)\<rparr>)"
  | (rotated) t s where "t \<in> set (tokens st)" "tokenId t = tid" "tok_active t"
         "s \<in> set (sessions st)" "sessionId s = tok_sessionId t"
         "validateAndRotate uid tid now st =
            (Inr \<lparr>tokenId = next_id st, tok_sessionId = tok_sessionId t,
                  tok_userId = tok_userId t, tok_expiresAt = expiresAt s,
                  issuedAt = now, tok_active = True, consumedAt = None\<rparr>,
             st\<lparr>tokens :=
                  map (\<lambda>x. if tokenId x = tid
                            then x\<lparr>tok_active := False, consumedAt := Some now\<rparr> else x)
                    (tokens st)
                  @ [\<lparr>tokenId = next_id st, tok_sessionId = tok_sessionId t,
                      tok_userId = tok_userId t, tok_expiresAt = expiresAt s,
                      issuedAt = now, tok_active = True, consumedAt = None\<rparr>],
                sessions :=
                  map (\<lambda>x. if sessionId x = tok_sessionId t
                            then x\<lparr>actionsCompleted := actionsCompleted x + 1\<rparr> else x)
                    (sessions st),
                next_id := next_id st + 1\<rparr>)"
    using validateAndRotate_effect [of uid tid now st] by blast
  then show ?thesis
  proof cases
    case same
    then show ?thesis by (simp add: chain_step_refl)
  next
    case (expired sid)
    show ?thesis
      unfolding expired snd_conv
      by (rule chain_step.quiet [where g = "\<lambda>x. x"
            and f = "\<lambda>x. if sessionId x = sid then expire now x else x"])
         (simp_all add: token_evolves_refl session_evolves_refl session_evolves_expire)
  next
    case (rotated t s)
    show ?thesis
      unfolding rotated(6) snd_conv
      by (rule chain_step.rotate [where t = t and s = s and c = "Some now"
            and t' = "\<lparr>tokenId = next_id st, tok_sessionId = tok_sessionId t,
                  tok_userId = tok_userId t, tok_expiresAt = expiresAt s,
                  issuedAt = now, tok_active = True, consumedAt = None\<rparr>"
            and f = "\<lambda>x. if sessionId x = tok_sessionId t
                            then x\<lparr>actionsCompleted := actionsCompleted x + 1\<rparr> else x"])
         (use rotated in \<open>simp_all add: session_evolves_def\<close>)
  qed
qed


lemma startSession_chain_step: "chain_step st (snd (startSession uid now st))"
proof (cases "list_ex (\<lambda>s. userId s = uid \<and> active s)
                (map (\<lambda>s. if userId s = uid then expire now s else s) (sessions st))")
  case True
  then have "snd (startSession uid now st) = st"
    by (simp add: startSession_def)
  then show ?thesis by (simp add: chain_step_refl)
next
  case False
  then have "snd (startSession uid now st) =
     st\<lparr>sessions := map (\<lambda>s. if userId s = uid then expire now s else s) (sessions st)
            @ [\<lparr>sessionId = next_id st, userId = uid, createdAt = now,
                 expiresAt = now + sessionDuration, active = True,
                 actionsCompleted = 0, endedAt = None\<rparr>],
         tokens := tokens st
            @ [\<lparr>tokenId = next_id st + 1, tok_sessionId = next_id st,
                 tok_userId = uid, tok_expiresAt = now + sessionDuration, issuedAt = now,
                 tok_active = True, consumedAt = None\<rparr>],
         next_id := next_id st + 2\<rparr>"
    by (simp add: startSession_def Let_def)
  then show ?thesis
    by (intro chain_step.start [where f = "\<lambda>s. if userId s = uid then expire now s else s"
          and s = "\<lparr>sessionId = next_id st, userId = uid, createdAt = now,
                 expiresAt = now + sessionDuration, active = True,
                 actionsCompleted = 0, endedAt = None\<rparr>"
          and t = "\<lparr>tokenId = next_id st + 1, tok_sessionId = next_id st,
                 tok_userId = uid, tok_expiresAt = now + sessionDuration, issuedAt = now,
                 tok_active = True, consumedAt = None\<rparr>"])
       (simp_all add: session_evolves_refl session_evolves_expire)
qed

lemma endSession_chain_step: "chain_step st (snd (endSession uid now st))"
proof (cases "find (\<lambda>s. userId s = uid \<and> active s) (sessions st)")
  case None
  then show ?thesis by (simp add: endSession_def chain_step_refl)
next
  case (Some s)
  then have "snd (endSession uid now st) =
     st\<lparr>tokens :=
          map (\<lambda>t. if tok_sessionId t = sessionId s then t\<lparr>tok_active := False\<rparr> else t)
            (tokens st),
        sessions :=
          map (\<lambda>x. if sessionId x = sessionId s
                    then x\<lparr>active := False, endedAt := Some now\<rparr> else x)
            (sessions st)\<rparr>"
    by (simp add: endSession_def)
  then show ?thesis
    by (intro chain_step.quiet
          [where g = "\<lambda>t. if tok_sessionId t = sessionId s then t\<lparr>tok_active := False\<rparr> else t"
             and f = "\<lambda>x. if sessionId x = sessionId s
                    then x\<lparr>active := False, endedAt := Some now\<rparr> else x"])
       (simp_all add: token_evolves_def session_evolves_def)
qed

text \<open>applyAction leaves the chain as validateAndRotate does, or untouched.\<close>

lemma applyAction_chain:
  "snd (applyAction uid a tid now st) = st
   \<or> (tokens (snd (applyAction uid a tid now st)) = tokens (snd (validateAndRotate uid tid now st))
      \<and> sessions (snd (applyAction uid a tid now st)) = sessions (snd (validateAndRotate uid tid now st))
      \<and> next_id (snd (applyAction uid a tid now st)) = next_id (snd (validateAndRotate uid tid now st)))"
  by (cases "validateAndRotate uid tid now st")
     (auto simp: applyAction_def Let_def split: option.splits sum.splits)

lemma applyAction_chain_step: "chain_step st (snd (applyAction uid a tid now st))"
  using applyAction_chain [of uid a tid now st]
    validateAndRotate_chain_step [of st uid tid now] chain_step_refl [of st]
    chain_step_frame [of st "snd (validateAndRotate uid tid now st)"
                         "snd (applyAction uid a tid now st)"]
  by auto

lemma submitAction_chain_step: "chain_step st (snd (submitAction uid tid a now st))"
proof (cases "10 \<le> recent uid 60 now (submit_log st)")
  case True
  then show ?thesis by (simp add: submitAction_def chain_step_refl)
next
  case False
  let ?st1 = "st\<lparr>submit_log := submit_log st @ [(uid, now)]\<rparr>"
  from False have "snd (submitAction uid tid a now st) = snd (applyAction uid a tid now ?st1)"
    by (cases "applyAction uid a tid now ?st1")
       (auto simp: submitAction_def split: sum.splits)
  moreover have "chain_step ?st1 (snd (applyAction uid a tid now ?st1))"
    by (rule applyAction_chain_step)
  then have "chain_step st (snd (applyAction uid a tid now ?st1))"
    by (rule chain_step_frame_left) simp_all
  ultimately show ?thesis by simp
qed

lemma gate_startSession_chain_step: "chain_step st (snd (gate_startSession uid now st))"
proof (cases "5 \<le> recent uid 3600 now (start_log st)")
  case True
  then show ?thesis by (simp add: gate_startSession_def chain_step_refl)
next
  case False
  let ?st1 = "st\<lparr>start_log := start_log st @ [(uid, now)]\<rparr>"
  from False have "snd (gate_startSession uid now st) = snd (startSession uid now ?st1)"
    by (simp add: gate_startSession_def)
  moreover have "chain_step ?st1 (snd (startSession uid now ?st1))"
    by (rule startSession_chain_step)
  then have "chain_step st (snd (startSession uid now ?st1))"
    by (rule chain_step_frame_left) simp_all
  ultimately show ?thesis by simp
qed

lemma step_chain_step: "chain_step st (step st c)"
proof (cases c)
  case (Pair now op)
  show ?thesis
    unfolding Pair
    by (cases op)
       (simp_all add: startSession_chain_step validateAndRotate_chain_step
          endSession_chain_step applyAction_chain_step submitAction_chain_step
          gate_startSession_chain_step)
qed


subsection \<open>The invariant is kept\<close>

lemma filter_map_le:
  "(\<And>x. Q (f x) \<Longrightarrow> Q x) \<Longrightarrow> length (filter Q (map f xs)) \<le> length (filter Q xs)"
  by (induction xs) auto

lemma short_list_eq: "length xs \<le> 1 \<Longrightarrow> a \<in> set xs \<Longrightarrow> b \<in> set xs \<Longrightarrow> a = b"
  by (cases xs) auto

lemma active_in_append: "active_in sid (xs @ ys) = active_in sid xs @ active_in sid ys"
  by (simp add: active_in_def)

lemma active_in_evolves:
  assumes "\<And>x. token_evolves x (g x)"
  shows "length (active_in sid (map g ts)) \<le> length (active_in sid ts)"
  unfolding active_in_def
proof (rule filter_map_le)
  fix x
  assume "tok_sessionId (g x) = sid \<and> tok_active (g x)"
  with assms [of x] show "tok_sessionId x = sid \<and> tok_active x"
    by (simp add: token_evolves_def)
qed

lemma token_evolves_retire:
  "token_evolves x (if tokenId x = tid then x\<lparr>tok_active := False, consumedAt := c\<rparr> else x)"
  by (simp add: token_evolves_def)

lemma active_in_retire:
  assumes "length (active_in sid ts) \<le> 1" "t \<in> set ts" "tok_active t" "tok_sessionId t = sid"
  shows "active_in sid
           (map (\<lambda>x. if tokenId x = tokenId t then x\<lparr>tok_active := False, consumedAt := c\<rparr> else x) ts)
         = []"
proof -
  have t_in: "t \<in> set (active_in sid ts)"
    using assms by (simp add: active_in_def)
  have "\<not> (tok_sessionId y = sid \<and> tok_active y)"
    if "y \<in> set (map (\<lambda>x. if tokenId x = tokenId t
                               then x\<lparr>tok_active := False, consumedAt := c\<rparr> else x) ts)" for y
  proof
    assume y: "tok_sessionId y = sid \<and> tok_active y"
    from that obtain x where x: "x \<in> set ts"
      "y = (if tokenId x = tokenId t then x\<lparr>tok_active := False, consumedAt := c\<rparr> else x)"
      by auto
    show False
    proof (cases "tokenId x = tokenId t")
      case True
      with x y show False by simp
    next
      case False
      with x y have "x \<in> set (active_in sid ts)" by (simp add: active_in_def)
      then have "x = t" using t_in by (rule short_list_eq [OF assms(1)])
      with False show False by simp
    qed
  qed
  then show ?thesis unfolding active_in_def filter_empty_conv by blast
qed

lemma active_in_fresh:
  "\<forall>t \<in> set ts. tok_sessionId t < n \<Longrightarrow> active_in n ts = []"
  unfolding active_in_def filter_empty_conv by fastforce

lemma chain_inv_tokD: "chain_inv st \<Longrightarrow> t \<in> set (tokens st) \<Longrightarrow> tok_sessionId t < next_id st"
  unfolding chain_inv_def by blast

lemma chain_inv_sesD: "chain_inv st \<Longrightarrow> s \<in> set (sessions st) \<Longrightarrow> sessionId s < next_id st"
  unfolding chain_inv_def by blast

lemma chain_inv_oneD: "chain_inv st \<Longrightarrow> length (active_in sid (tokens st)) \<le> 1"
  unfolding chain_inv_def by blast

lemma chain_inv_durD:
  "chain_inv st \<Longrightarrow> s \<in> set (sessions st) \<Longrightarrow> expiresAt s = createdAt s + sessionDuration"
  unfolding chain_inv_def by blast

lemma chain_inv_expD:
  "chain_inv st \<Longrightarrow> t \<in> set (tokens st) \<Longrightarrow> s \<in> set (sessions st)
     \<Longrightarrow> sessionId s = tok_sessionId t \<Longrightarrow> tok_expiresAt t = expiresAt s"
  unfolding chain_inv_def by blast

lemma chain_inv_refD:
  "chain_inv st \<Longrightarrow> t \<in> set (tokens st) \<Longrightarrow> \<exists>s \<in> set (sessions st). sessionId s = tok_sessionId t"
  unfolding chain_inv_def by blast

lemma chain_inv_token_bound:
  assumes "chain_step st st'" "chain_inv st" "u \<in> set (tokens st')"
  shows "tok_sessionId u < next_id st'"
  using assms
proof (induction rule: chain_step.induct)
  case (quiet st' g st f)
  then obtain x where x: "x \<in> set (tokens st)" "u = g x" by auto
  have "tok_sessionId (g x) = tok_sessionId x"
    using quiet(2) [of x] by (simp add: token_evolves_def)
  with x quiet(5) chain_inv_tokD [OF quiet(6) x(1)] show ?case by simp
next
  case (rotate t st s st' c t' f)
  from rotate(5,13) consider
    x where "x \<in> set (tokens st)" "tok_sessionId u = tok_sessionId x" | "u = t'"
    by auto
  then show ?case
  proof cases
    case 1
    with chain_inv_tokD [OF rotate(12) 1(1)] rotate(10) show ?thesis by simp
  next
    case 2
    with chain_inv_tokD [OF rotate(12) rotate(1)] rotate(6,10) show ?thesis by simp
  qed
next
  case (start st' f st s t)
  from start(5,11) consider "u \<in> set (tokens st)" | "u = t" by auto
  then show ?case
  proof cases
    case 1
    with chain_inv_tokD [OF start(10) 1] start(8) show ?thesis by simp
  next
    case 2
    with start(3,6,8) show ?thesis by simp
  qed
qed

lemma session_evolves_id: "session_evolves x y \<Longrightarrow> sessionId y = sessionId x"
  by (simp add: session_evolves_def)

lemma chain_inv_session_bound:
  assumes "chain_step st st'" "chain_inv st" "u \<in> set (sessions st')"
  shows "sessionId u < next_id st'"
  using assms
proof (induction rule: chain_step.induct)
  case (quiet st' g st f)
  then obtain x where x: "x \<in> set (sessions st)" "u = f x" by auto
  with session_evolves_id [OF quiet(4) [of x]] chain_inv_sesD [OF quiet(6) x(1)] quiet(5)
  show ?case by simp
next
  case (rotate t st s st' c t' f)
  then obtain x where x: "x \<in> set (sessions st)" "u = f x" by auto
  with session_evolves_id [OF rotate(9) [of x]] chain_inv_sesD [OF rotate(12) x(1)] rotate(10)
  show ?case by simp
next
  case (start st' f st s t)
  from start(1,11) consider x where "x \<in> set (sessions st)" "u = f x" | "u = s" by auto
  then show ?case
  proof cases
    case 1
    with session_evolves_id [OF start(2) [of x]] chain_inv_sesD [OF start(10) 1(1)] start(8)
    show ?thesis by simp
  next
    case 2
    with start(3,8) show ?thesis by simp
  qed
qed


lemma chain_inv_single_active:
  assumes "chain_step st st'" "chain_inv st"
  shows "length (active_in sid (tokens st')) \<le> 1"
  using assms
proof (induction rule: chain_step.induct)
  case (quiet st' g st f)
  have "length (active_in sid (map g (tokens st))) \<le> length (active_in sid (tokens st))"
    using quiet(2) by (rule active_in_evolves)
  moreover have "length (active_in sid (tokens st)) \<le> 1"
    using quiet(6) by (rule chain_inv_oneD)
  ultimately show ?case using quiet(1) by simp
next
  case (rotate t st s st' c t' f)
  let ?retired = "map (\<lambda>x. if tokenId x = tokenId t
                            then x\<lparr>tok_active := False, consumedAt := c\<rparr> else x) (tokens st)"
  have old: "length (active_in sid (tokens st)) \<le> 1"
    using rotate(12) by (rule chain_inv_oneD)
  show ?case
  proof (cases "sid = tok_sessionId t")
    case True
    with old rotate(1,2) have "active_in sid ?retired = []"
      by (intro active_in_retire) simp_all
    then show ?thesis
      using rotate(5) by (simp add: active_in_append) (simp add: active_in_def)
  next
    case False
    have "length (active_in sid ?retired) \<le> length (active_in sid (tokens st))"
      by (rule active_in_evolves) (rule token_evolves_retire)
    moreover from False rotate(6) have "active_in sid [t'] = []"
      by (simp add: active_in_def)
    ultimately show ?thesis
      using old rotate(5) by (simp add: active_in_append)
  qed
next
  case (start st' f st s t)
  have old: "length (active_in sid (tokens st)) \<le> 1"
    using start(10) by (rule chain_inv_oneD)
  show ?case
  proof (cases "sid = next_id st")
    case True
    have "active_in (next_id st) (tokens st) = []"
      using chain_inv_tokD [OF start(10)] by (intro active_in_fresh) simp
    with True show ?thesis
      using start(5) by (simp add: active_in_append) (simp add: active_in_def)
  next
    case False
    with start(3,6) have "active_in sid [t] = []"
      by (simp add: active_in_def)
    with old show ?thesis
      using start(5) by (simp add: active_in_append)
  qed
qed


lemma session_evolves_expiry:
  "session_evolves x y \<Longrightarrow> expiresAt y = expiresAt x \<and> createdAt y = createdAt x"
  by (simp add: session_evolves_def)

lemma token_evolves_fields:
  "token_evolves x y \<Longrightarrow> tok_sessionId y = tok_sessionId x \<and> tok_expiresAt y = tok_expiresAt x"
  by (simp add: token_evolves_def)

lemma chain_inv_duration:
  assumes "chain_step st st'" "chain_inv st" "u \<in> set (sessions st')"
  shows "expiresAt u = createdAt u + sessionDuration"
  using assms
proof (induction rule: chain_step.induct)
  case (quiet st' g st f)
  then obtain x where x: "x \<in> set (sessions st)" "u = f x" by auto
  with session_evolves_expiry [OF quiet(4) [of x]] chain_inv_durD [OF quiet(6) x(1)]
  show ?case by simp
next
  case (rotate t st s st' c t' f)
  then obtain x where x: "x \<in> set (sessions st)" "u = f x" by auto
  with session_evolves_expiry [OF rotate(9) [of x]] chain_inv_durD [OF rotate(12) x(1)]
  show ?case by simp
next
  case (start st' f st s t)
  from start(1,11) consider x where "x \<in> set (sessions st)" "u = f x" | "u = s" by auto
  then show ?case
  proof cases
    case 1
    with session_evolves_expiry [OF start(2) [of x]] chain_inv_durD [OF start(10) 1(1)]
    show ?thesis by simp
  next
    case 2
    with start(4) show ?thesis by simp
  qed
qed

lemma chain_inv_expiry:
  assumes "chain_step st st'" "chain_inv st" "u \<in> set (tokens st')" "v \<in> set (sessions st')"
    "sessionId v = tok_sessionId u"
  shows "tok_expiresAt u = expiresAt v"
  using assms
proof (induction rule: chain_step.induct)
  case (quiet st' g st f)
  then obtain x y where xy: "x \<in> set (tokens st)" "u = g x" "y \<in> set (sessions st)" "v = f y"
    by auto
  note tx = token_evolves_fields [OF quiet(2) [of x]]
  note sy = session_evolves_expiry [OF quiet(4) [of y]] session_evolves_id [OF quiet(4) [of y]]
  from xy tx sy quiet(9) have "sessionId y = tok_sessionId x" by simp
  with chain_inv_expD [OF quiet(6) xy(1) xy(3)] xy tx sy show ?case by simp
next
  case (rotate t st s st' c t' f)
  from rotate(8,14) obtain y where y: "y \<in> set (sessions st)" "v = f y" by auto
  note sy = session_evolves_expiry [OF rotate(9) [of y]] session_evolves_id [OF rotate(9) [of y]]
  from rotate(5,13) consider x where "x \<in> set (tokens st)"
      "u = (if tokenId x = tokenId t then x\<lparr>tok_active := False, consumedAt := c\<rparr> else x)"
    | "u = t'" by auto
  then show ?case
  proof cases
    case 1
    then have tx: "tok_sessionId u = tok_sessionId x" "tok_expiresAt u = tok_expiresAt x"
      by simp_all
    with y sy rotate(15) have "sessionId y = tok_sessionId x" by simp
    with chain_inv_expD [OF rotate(12) 1(1) y(1)] y tx sy show ?thesis by simp
  next
    case 2
    with y sy rotate(6,15) have "sessionId y = tok_sessionId t" by simp
    then have "tok_expiresAt t = expiresAt y"
      using chain_inv_expD [OF rotate(12) rotate(1) y(1)] by simp
    moreover have "tok_expiresAt t = expiresAt s"
      using chain_inv_expD [OF rotate(12) rotate(1) rotate(3)] rotate(4) by simp
    ultimately show ?thesis using 2 rotate(7) y sy by simp
  qed
next
  case (start st' f st s t)
  from start(5,11) consider (old) "u \<in> set (tokens st)" | (new) "u = t" by auto
  then show ?case
  proof cases
    case old
    from start(1,12) consider (kept) y where "y \<in> set (sessions st)" "v = f y" | (fresh) "v = s"
      by auto
    then show ?thesis
    proof cases
      case kept
      note sy = session_evolves_expiry [OF start(2) [of y]] session_evolves_id [OF start(2) [of y]]
      from kept sy start(13) have "sessionId y = tok_sessionId u" by simp
      with chain_inv_expD [OF start(10) old kept(1)] kept sy show ?thesis by simp
    next
      case fresh
      with chain_inv_tokD [OF start(10) old] start(3,13) show ?thesis by simp
    qed
  next
    case new
    from start(1,12) consider (kept) y where "y \<in> set (sessions st)" "v = f y" | (fresh) "v = s"
      by auto
    then show ?thesis
    proof cases
      case kept
      note sy = session_evolves_id [OF start(2) [of y]]
      from kept sy new start(3,6,13) have "sessionId y = next_id st" by simp
      with chain_inv_sesD [OF start(10) kept(1)] show ?thesis by simp
    next
      case fresh
      with new start(7) show ?thesis by simp
    qed
  qed
qed

lemma chain_inv_reference:
  assumes "chain_step st st'" "chain_inv st" "u \<in> set (tokens st')"
  shows "\<exists>v \<in> set (sessions st'). sessionId v = tok_sessionId u"
  using assms
proof (induction rule: chain_step.induct)
  case (quiet st' g st f)
  then obtain x where x: "x \<in> set (tokens st)" "u = g x" by auto
  from chain_inv_refD [OF quiet(6) x(1)] obtain y
    where y: "y \<in> set (sessions st)" "sessionId y = tok_sessionId x" by blast
  have "f y \<in> set (sessions st')" using y quiet(3) by simp
  moreover have "sessionId (f y) = tok_sessionId u"
    using session_evolves_id [OF quiet(4) [of y]] token_evolves_fields [OF quiet(2) [of x]] x y
    by simp
  ultimately show ?case by blast
next
  case (rotate t st s st' c t' f)
  from rotate(5,13) consider x where "x \<in> set (tokens st)" "tok_sessionId u = tok_sessionId x"
    | "u = t'" by auto
  then obtain y where y: "y \<in> set (sessions st)" "sessionId y = tok_sessionId u"
  proof cases
    case 1
    with chain_inv_refD [OF rotate(12) 1(1)] that show ?thesis by auto
  next
    case 2
    with rotate(3,4,6) that show ?thesis by auto
  qed
  have "f y \<in> set (sessions st')" using y rotate(8) by simp
  moreover have "sessionId (f y) = tok_sessionId u"
    using session_evolves_id [OF rotate(9) [of y]] y by simp
  ultimately show ?case by blast
next
  case (start st' f st s t)
  from start(5,11) consider (old) "u \<in> set (tokens st)" | (new) "u = t" by auto
  then show ?case
  proof cases
    case old
    from chain_inv_refD [OF start(10) old] obtain y
      where y: "y \<in> set (sessions st)" "sessionId y = tok_sessionId u" by blast
    have "f y \<in> set (sessions st')" using y start(1) by simp
    moreover have "sessionId (f y) = tok_sessionId u"
      using session_evolves_id [OF start(2) [of y]] y by simp
    ultimately show ?thesis by blast
  next
    case new
    have "s \<in> set (sessions st')" using start(1) by simp
    with new start(6) show ?thesis by auto
  qed
qed

lemma chain_inv_idD: "chain_inv st \<Longrightarrow> t \<in> set (tokens st) \<Longrightarrow> tokenId t < next_id st"
  unfolding chain_inv_def by blast

lemma chain_inv_distinctD: "chain_inv st \<Longrightarrow> distinct (map tokenId (tokens st))"
  unfolding chain_inv_def by blast

lemma token_evolves_id: "token_evolves x y \<Longrightarrow> tokenId y = tokenId x"
  by (simp add: token_evolves_def)

lemma map_tokenId_evolves:
  assumes "\<And>x. token_evolves x (g x)"
  shows "map tokenId (map g ts) = map tokenId ts"
  using token_evolves_id [OF assms] by (induction ts) simp_all

text \<open>The ids of the tokens after a step: those before, and at most one new one.\<close>

lemma chain_step_token_ids:
  assumes "chain_step st st'"
  shows "(map tokenId (tokens st') = map tokenId (tokens st) \<and> next_id st' = next_id st)
         \<or> (map tokenId (tokens st') = map tokenId (tokens st) @ [next_id st]
             \<and> next_id st' = next_id st + 1)
         \<or> (map tokenId (tokens st') = map tokenId (tokens st) @ [next_id st + 1]
             \<and> next_id st' = next_id st + 2)"
  using assms
proof (induction rule: chain_step.induct)
  case (quiet st' g st f)
  have "map tokenId (map g (tokens st)) = map tokenId (tokens st)"
    using quiet(2) by (rule map_tokenId_evolves)
  with quiet(1,5) show ?case by simp
next
  case (rotate t st s st' c t' f)
  have "map tokenId
          (map (\<lambda>x. if tokenId x = tokenId t then x\<lparr>tok_active := False, consumedAt := c\<rparr> else x)
             (tokens st)) = map tokenId (tokens st)"
    by (rule map_tokenId_evolves) (rule token_evolves_retire)
  with rotate(5,10,11) show ?case by simp
next
  case (start st' f st s t)
  then show ?case by simp
qed

lemma chain_inv_token_ids:
  assumes "chain_step st st'" "chain_inv st"
  shows "(\<forall>t \<in> set (tokens st'). tokenId t < next_id st') \<and> distinct (map tokenId (tokens st'))"
proof -
  have old: "\<forall>i \<in> set (map tokenId (tokens st)). i < next_id st"
    using chain_inv_idD [OF assms(2)] by auto
  have dist: "distinct (map tokenId (tokens st))"
    using assms(2) by (rule chain_inv_distinctD)
  from chain_step_token_ids [OF assms(1)]
  have "(\<forall>i \<in> set (map tokenId (tokens st')). i < next_id st')
        \<and> distinct (map tokenId (tokens st'))"
  proof (elim disjE conjE)
    assume "map tokenId (tokens st') = map tokenId (tokens st)" "next_id st' = next_id st"
    with old dist show ?thesis by simp
  next
    assume "map tokenId (tokens st') = map tokenId (tokens st) @ [next_id st]"
      "next_id st' = next_id st + 1"
    with old dist show ?thesis by fastforce
  next
    assume "map tokenId (tokens st') = map tokenId (tokens st) @ [next_id st + 1]"
      "next_id st' = next_id st + 2"
    with old dist show ?thesis by fastforce
  qed
  then show ?thesis by auto
qed

lemma chain_inv_step:
  assumes "chain_step st st'" "chain_inv st"
  shows "chain_inv st'"
  unfolding chain_inv_def
proof (intro conjI ballI allI impI)
  fix t assume "t \<in> set (tokens st')"
  with assms show "tok_sessionId t < next_id st'" by (rule chain_inv_token_bound)
next
  fix s assume "s \<in> set (sessions st')"
  with assms show "sessionId s < next_id st'" by (rule chain_inv_session_bound)
next
  fix sid
  from assms show "length (active_in sid (tokens st')) \<le> 1" by (rule chain_inv_single_active)
next
  fix s assume "s \<in> set (sessions st')"
  with assms show "expiresAt s = createdAt s + sessionDuration" by (rule chain_inv_duration)
next
  fix t s assume "t \<in> set (tokens st')" "s \<in> set (sessions st')" "sessionId s = tok_sessionId t"
  with assms show "tok_expiresAt t = expiresAt s" by (rule chain_inv_expiry)
next
  fix t assume "t \<in> set (tokens st')"
  with assms show "\<exists>s \<in> set (sessions st'). sessionId s = tok_sessionId t"
    by (rule chain_inv_reference)
next
  fix t assume "t \<in> set (tokens st')"
  with chain_inv_token_ids [OF assms] show "tokenId t < next_id st'" by blast
next
  from chain_inv_token_ids [OF assms] show "distinct (map tokenId (tokens st'))" by blast
qed

lemma chain_inv_init: "chain_inv init"
  by (simp add: chain_inv_def init_def active_in_def)

lemma chain_inv_run: "chain_inv st \<Longrightarrow> chain_inv (run st calls)"
  unfolding run_def
proof (induction calls arbitrary: st)
  case Nil
  then show ?case by simp
next
  case (Cons c calls)
  have "chain_inv (step st c)"
    using step_chain_step Cons.prems by (rule chain_inv_step)
  then show ?case using Cons.IH by simp
qed

lemma run_append: "run st (xs @ ys) = run (run st xs) ys"
  by (simp add: run_def)


lemma chain_step_grows_tokens:
  "chain_step st st' \<Longrightarrow> grows token_evolves (tokens st) (tokens st')"
proof (induction rule: chain_step.induct)
  case (quiet st' g st f)
  then show ?case by (simp add: grows_map)
next
  case (rotate t st s st' c t' f)
  have "grows token_evolves (tokens st)
          (map (\<lambda>x. if tokenId x = tokenId t then x\<lparr>tok_active := False, consumedAt := c\<rparr> else x)
             (tokens st) @ [t'])"
    by (rule grows_map_append) (rule token_evolves_retire)
  with rotate(5) show ?case by simp
next
  case (start st' f st s t)
  have "grows token_evolves (tokens st) (tokens st @ [t])"
    by (rule grows_append) (rule token_evolves_refl)
  with start(5) show ?case by simp
qed

lemma chain_step_grows_sessions:
  "chain_step st st' \<Longrightarrow> grows session_evolves (sessions st) (sessions st')"
proof (induction rule: chain_step.induct)
  case (quiet st' g st f)
  then show ?case by (simp add: grows_map)
next
  case (rotate t st s st' c t' f)
  then show ?case by (simp add: grows_map)
next
  case (start st' f st s t)
  have "grows session_evolves (sessions st) (map f (sessions st) @ [s])"
    by (rule grows_map_append) (rule start(2))
  with start(1) show ?case by simp
qed

lemma run_grows_tokens: "grows token_evolves (tokens st) (tokens (run st calls))"
  unfolding run_def
proof (induction calls arbitrary: st)
  case Nil
  show ?case by (simp add: grows_refl token_evolves_refl)
next
  case (Cons c calls)
  have "grows token_evolves (tokens st) (tokens (step st c))"
    using step_chain_step by (rule chain_step_grows_tokens)
  moreover have "grows token_evolves (tokens (step st c)) (tokens (foldl step (step st c) calls))"
    by (rule Cons.IH)
  ultimately have "grows token_evolves (tokens st) (tokens (foldl step (step st c) calls))"
    by (rule grows_trans [rotated]) (rule token_evolves_trans)
  then show ?case by simp
qed

lemma run_grows_sessions: "grows session_evolves (sessions st) (sessions (run st calls))"
  unfolding run_def
proof (induction calls arbitrary: st)
  case Nil
  show ?case by (simp add: grows_refl session_evolves_refl)
next
  case (Cons c calls)
  have "grows session_evolves (sessions st) (sessions (step st c))"
    using step_chain_step by (rule chain_step_grows_sessions)
  moreover have "grows session_evolves (sessions (step st c))
                   (sessions (foldl step (step st c) calls))"
    by (rule Cons.IH)
  ultimately have "grows session_evolves (sessions st) (sessions (foldl step (step st c) calls))"
    by (rule grows_trans [rotated]) (rule session_evolves_trans)
  then show ?case by simp
qed

lemma rotation_leaves_successor:
  assumes "chain_inv st" "fst (validateAndRotate uid tid now st) = Inr t'"
  shows "filter (\<lambda>t. tok_sessionId t = tok_sessionId t' \<and> tok_active t)
           (tokens (snd (validateAndRotate uid tid now st))) = [t']"
proof -
  from assms(2) validateAndRotate_effect [of uid tid now st]
  obtain t s where ts: "t \<in> set (tokens st)" "tokenId t = tid" "tok_active t"
      "s \<in> set (sessions st)" "sessionId s = tok_sessionId t"
    and new: "t' = \<lparr>tokenId = next_id st, tok_sessionId = tok_sessionId t,
                  tok_userId = tok_userId t, tok_expiresAt = expiresAt s,
                  issuedAt = now, tok_active = True, consumedAt = None\<rparr>"
    and toks: "tokens (snd (validateAndRotate uid tid now st)) =
                  map (\<lambda>x. if tokenId x = tid
                            then x\<lparr>tok_active := False, consumedAt := Some now\<rparr> else x)
                    (tokens st) @ [t']"
    by auto
  have "length (active_in (tok_sessionId t) (tokens st)) \<le> 1"
    using assms(1) by (rule chain_inv_oneD)
  then have "active_in (tok_sessionId t)
               (map (\<lambda>x. if tokenId x = tokenId t
                         then x\<lparr>tok_active := False, consumedAt := Some now\<rparr> else x)
                  (tokens st)) = []"
    using ts(1,3) by (rule active_in_retire) simp
  then have "active_in (tok_sessionId t') (tokens (snd (validateAndRotate uid tid now st))) = [t']"
    unfolding toks active_in_append using ts(2) new by (simp add: active_in_def)
  then show ?thesis by (simp add: active_in_def)
qed


subsection \<open>The claims about the chain\<close>

text \<open>
  C2. After every sequence of operations, each session has at most one active
  token; a token that is in the state stays in it with its id, and once it is
  not active it is not active after any further operations; a successful
  \<open>validateAndRotate\<close> leaves, in one step, its successor as the only active
  token of the session; and no two tokens have the same id. Each call is one
  step of \<open>run\<close>, so these are all the states there are to observe.
\<close>

theorem single_active_token:
  "(\<forall>sid. length (filter (\<lambda>t. tok_sessionId t = sid \<and> tok_active t)
                    (tokens (run init calls))) \<le> 1)
   \<and> (\<forall>i < length (tokens (run init calls)).
         i < length (tokens (run (run init calls) later))
         \<and> tokenId (tokens (run (run init calls) later) ! i) = tokenId (tokens (run init calls) ! i)
         \<and> (\<not> tok_active (tokens (run init calls) ! i)
              \<longrightarrow> \<not> tok_active (tokens (run (run init calls) later) ! i)))
   \<and> (\<forall>uid tid now t'.
         fst (validateAndRotate uid tid now (run init calls)) = Inr t'
         \<longrightarrow> filter (\<lambda>t. tok_sessionId t = tok_sessionId t' \<and> tok_active t)
               (tokens (snd (validateAndRotate uid tid now (run init calls)))) = [t'])
   \<and> distinct (map tokenId (tokens (run init calls)))"
proof -
  have inv: "chain_inv (run init calls)"
    using chain_inv_init by (rule chain_inv_run)
  have ids: "distinct (map tokenId (tokens (run init calls)))"
    using inv by (rule chain_inv_distinctD)
  have one: "\<forall>sid. length (filter (\<lambda>t. tok_sessionId t = sid \<and> tok_active t)
                    (tokens (run init calls))) \<le> 1"
    using chain_inv_oneD [OF inv] by (simp add: active_in_def)
  have "grows token_evolves (tokens (run init calls)) (tokens (run (run init calls) later))"
    by (rule run_grows_tokens)
  then have keep: "\<forall>i < length (tokens (run init calls)).
         i < length (tokens (run (run init calls) later))
         \<and> tokenId (tokens (run (run init calls) later) ! i) = tokenId (tokens (run init calls) ! i)
         \<and> (\<not> tok_active (tokens (run init calls) ! i)
              \<longrightarrow> \<not> tok_active (tokens (run (run init calls) later) ! i))"
    unfolding grows_def token_evolves_def by fastforce
  have rot: "\<forall>uid tid now t'.
         fst (validateAndRotate uid tid now (run init calls)) = Inr t'
         \<longrightarrow> filter (\<lambda>t. tok_sessionId t = tok_sessionId t' \<and> tok_active t)
               (tokens (snd (validateAndRotate uid tid now (run init calls)))) = [t']"
    using rotation_leaves_successor [OF inv] by blast
  from one keep rot ids show ?thesis by blast
qed

text \<open>
  The single active token after a start and one accepted action of user 7:
  the consumed token 1 stays inactive when the session is ended, and a rotation
  of token 2 leaves token 3 as the only active token of session 0.
\<close>

theorem single_active_token_witness:
  "length (filter (\<lambda>t. tok_sessionId t = 0 \<and> tok_active t)
             (tokens (run init [(1000, StartSession 7), (1600, SubmitAction 7 1 ''watch_ad'')]))) \<le> 1
   \<and> 0 < length (tokens (run init [(1000, StartSession 7), (1600, SubmitAction 7 1 ''watch_ad'')]))
   \<and> \<not> tok_active (tokens (run init [(1000, StartSession 7), (1600, SubmitAction 7 1 ''watch_ad'')]) ! 0)
   \<and> \<not> tok_active (tokens (run (run init [(1000, StartSession 7), (1600, SubmitAction 7 1 ''watch_ad'')])
                           [(1700, EndSession 7)]) ! 0)
   \<and> fst (validateAndRotate 7 2 1650 (run init [(1000, StartSession 7), (1600, SubmitAction 7 1 ''watch_ad'')]))
       = Inr \<lparr>tokenId = 3, tok_sessionId = 0, tok_userId = 7, tok_expiresAt = 2800,
             issuedAt = 1650, tok_active = True, consumedAt = None\<rparr>
   \<and> filter (\<lambda>t. tok_sessionId t = 0 \<and> tok_active t)
         (tokens (snd (validateAndRotate 7 2 1650
                         (run init [(1000, StartSession 7), (1600, SubmitAction 7 1 ''watch_ad'')]))))
       = [\<lparr>tokenId = 3, tok_sessionId = 0, tok_userId = 7, tok_expiresAt = 2800,
             issuedAt = 1650, tok_active = True, consumedAt = None\<rparr>]"
proof -
  have len: "0 < length (tokens (run init [(1000, StartSession 7), (1600, SubmitAction 7 1 ''watch_ad'')]))"
    by code_simp
  have used: "\<not> tok_active (tokens (run init [(1000, StartSession 7), (1600, SubmitAction 7 1 ''watch_ad'')]) ! 0)"
    by code_simp
  have rot: "fst (validateAndRotate 7 2 1650 (run init [(1000, StartSession 7), (1600, SubmitAction 7 1 ''watch_ad'')]))
       = Inr \<lparr>tokenId = 3, tok_sessionId = 0, tok_userId = 7, tok_expiresAt = 2800,
             issuedAt = 1650, tok_active = True, consumedAt = None\<rparr>"
    by code_simp
  from len used rot
    single_active_token [of "[(1000, StartSession 7), (1600, SubmitAction 7 1 ''watch_ad'')]"
                            "[(1700, EndSession 7)]"]
  show ?thesis by force
qed

text \<open>
  C3. After every sequence of operations: every session expires
  \<open>sessionDuration\<close> after its creation; every token has a session, and its
  \<open>expiresAt\<close> is that of every session with its session id, so two tokens of
  one session expire at the same instant; and further operations change
  neither the \<open>expiresAt\<close> of a session nor that of a token.
\<close>

theorem shared_expiry:
  "(\<forall>s \<in> set (sessions (run init calls)). expiresAt s = createdAt s + sessionDuration)
   \<and> (\<forall>t \<in> set (tokens (run init calls)).
         \<exists>s \<in> set (sessions (run init calls)).
           sessionId s = tok_sessionId t \<and> tok_expiresAt t = expiresAt s)
   \<and> (\<forall>t \<in> set (tokens (run init calls)). \<forall>s \<in> set (sessions (run init calls)).
         sessionId s = tok_sessionId t \<longrightarrow> tok_expiresAt t = expiresAt s)
   \<and> (\<forall>t \<in> set (tokens (run init calls)). \<forall>u \<in> set (tokens (run init calls)).
         tok_sessionId t = tok_sessionId u \<longrightarrow> tok_expiresAt t = tok_expiresAt u)
   \<and> (\<forall>i < length (sessions (run init calls)).
         i < length (sessions (run (run init calls) later))
         \<and> sessionId (sessions (run (run init calls) later) ! i)
             = sessionId (sessions (run init calls) ! i)
         \<and> createdAt (sessions (run (run init calls) later) ! i)
             = createdAt (sessions (run init calls) ! i)
         \<and> expiresAt (sessions (run (run init calls) later) ! i)
             = expiresAt (sessions (run init calls) ! i))
   \<and> (\<forall>i < length (tokens (run init calls)).
         i < length (tokens (run (run init calls) later))
         \<and> tokenId (tokens (run (run init calls) later) ! i)
             = tokenId (tokens (run init calls) ! i)
         \<and> tok_sessionId (tokens (run (run init calls) later) ! i)
             = tok_sessionId (tokens (run init calls) ! i)
         \<and> tok_expiresAt (tokens (run (run init calls) later) ! i)
             = tok_expiresAt (tokens (run init calls) ! i))"
proof -
  let ?st = "run init calls"
  have inv: "chain_inv ?st"
    using chain_inv_init by (rule chain_inv_run)
  have dur: "\<forall>s \<in> set (sessions ?st). expiresAt s = createdAt s + sessionDuration"
    using chain_inv_durD [OF inv] by blast
  have all: "\<forall>t \<in> set (tokens ?st). \<forall>s \<in> set (sessions ?st).
         sessionId s = tok_sessionId t \<longrightarrow> tok_expiresAt t = expiresAt s"
    using chain_inv_expD [OF inv] by blast
  have ex: "\<forall>t \<in> set (tokens ?st). \<exists>s \<in> set (sessions ?st).
           sessionId s = tok_sessionId t \<and> tok_expiresAt t = expiresAt s"
  proof
    fix t assume t: "t \<in> set (tokens ?st)"
    from chain_inv_refD [OF inv t] obtain s
      where s: "s \<in> set (sessions ?st)" "sessionId s = tok_sessionId t" by blast
    with chain_inv_expD [OF inv t s] show "\<exists>s \<in> set (sessions ?st).
           sessionId s = tok_sessionId t \<and> tok_expiresAt t = expiresAt s" by blast
  qed
  have same: "\<forall>t \<in> set (tokens ?st). \<forall>u \<in> set (tokens ?st).
         tok_sessionId t = tok_sessionId u \<longrightarrow> tok_expiresAt t = tok_expiresAt u"
  proof (intro ballI impI)
    fix t u assume tu: "t \<in> set (tokens ?st)" "u \<in> set (tokens ?st)"
      "tok_sessionId t = tok_sessionId u"
    from chain_inv_refD [OF inv tu(1)] obtain s
      where s: "s \<in> set (sessions ?st)" "sessionId s = tok_sessionId t" by blast
    from chain_inv_expD [OF inv tu(1) s] have "tok_expiresAt t = expiresAt s" .
    moreover from chain_inv_expD [OF inv tu(2) s(1)] s(2) tu(3)
    have "tok_expiresAt u = expiresAt s" by simp
    ultimately show "tok_expiresAt t = tok_expiresAt u" by simp
  qed
  have "grows session_evolves (sessions ?st) (sessions (run ?st later))"
    by (rule run_grows_sessions)
  then have ses: "\<forall>i < length (sessions ?st).
         i < length (sessions (run ?st later))
         \<and> sessionId (sessions (run ?st later) ! i) = sessionId (sessions ?st ! i)
         \<and> createdAt (sessions (run ?st later) ! i) = createdAt (sessions ?st ! i)
         \<and> expiresAt (sessions (run ?st later) ! i) = expiresAt (sessions ?st ! i)"
    unfolding grows_def session_evolves_def by fastforce
  have "grows token_evolves (tokens ?st) (tokens (run ?st later))"
    by (rule run_grows_tokens)
  then have tok: "\<forall>i < length (tokens ?st).
         i < length (tokens (run ?st later))
         \<and> tokenId (tokens (run ?st later) ! i) = tokenId (tokens ?st ! i)
         \<and> tok_sessionId (tokens (run ?st later) ! i) = tok_sessionId (tokens ?st ! i)
         \<and> tok_expiresAt (tokens (run ?st later) ! i) = tok_expiresAt (tokens ?st ! i)"
    unfolding grows_def token_evolves_def by fastforce
  from dur ex all same ses tok show ?thesis by blast
qed

text \<open>
  The shared expiry after a start at 1000 and one accepted action of user 7:
  the session expires at 2800, and so do the second token and, after a further
  accepted action at 2000, the session and that token still.
\<close>

theorem shared_expiry_witness:
  "0 < length (sessions (run init [(1000, StartSession 7), (1600, SubmitAction 7 1 ''watch_ad'')]))
   \<and> sessions (run init [(1000, StartSession 7), (1600, SubmitAction 7 1 ''watch_ad'')]) ! 0
       \<in> set (sessions (run init [(1000, StartSession 7), (1600, SubmitAction 7 1 ''watch_ad'')]))
   \<and> expiresAt (sessions (run init [(1000, StartSession 7), (1600, SubmitAction 7 1 ''watch_ad'')]) ! 0) = 2800
   \<and> createdAt (sessions (run init [(1000, StartSession 7), (1600, SubmitAction 7 1 ''watch_ad'')]) ! 0)
       + sessionDuration = 2800
   \<and> expiresAt (sessions (run (run init [(1000, StartSession 7), (1600, SubmitAction 7 1 ''watch_ad'')])
                             [(2000, SubmitAction 7 2 ''solve_puzzle'')]) ! 0) = 2800
   \<and> 1 < length (tokens (run init [(1000, StartSession 7), (1600, SubmitAction 7 1 ''watch_ad'')]))
   \<and> tok_expiresAt (tokens (run init [(1000, StartSession 7), (1600, SubmitAction 7 1 ''watch_ad'')]) ! 1) = 2800
   \<and> tok_expiresAt (tokens (run (run init [(1000, StartSession 7), (1600, SubmitAction 7 1 ''watch_ad'')])
                                [(2000, SubmitAction 7 2 ''solve_puzzle'')]) ! 1) = 2800"
proof -
  note claim = shared_expiry [of "[(1000, StartSession 7), (1600, SubmitAction 7 1 ''watch_ad'')]"
                                 "[(2000, SubmitAction 7 2 ''solve_puzzle'')]"]
  have a: "0 < length (sessions (run init [(1000, StartSession 7), (1600, SubmitAction 7 1 ''watch_ad'')]))"
    by code_simp
  have b: "sessions (run init [(1000, StartSession 7), (1600, SubmitAction 7 1 ''watch_ad'')]) ! 0
       \<in> set (sessions (run init [(1000, StartSession 7), (1600, SubmitAction 7 1 ''watch_ad'')]))"
    by code_simp
  have c: "expiresAt (sessions (run init [(1000, StartSession 7), (1600, SubmitAction 7 1 ''watch_ad'')]) ! 0) = 2800"
    by code_simp
  have d: "1 < length (tokens (run init [(1000, StartSession 7), (1600, SubmitAction 7 1 ''watch_ad'')]))"
    by code_simp
  have e: "tok_expiresAt (tokens (run init [(1000, StartSession 7), (1600, SubmitAction 7 1 ''watch_ad'')]) ! 1) = 2800"
    by code_simp
  have f: "createdAt (sessions (run init [(1000, StartSession 7), (1600, SubmitAction 7 1 ''watch_ad'')]) ! 0)
       + sessionDuration = 2800"
    using claim [THEN conjunct1, THEN bspec, OF b] c by simp
  have g: "expiresAt (sessions (run (run init [(1000, StartSession 7), (1600, SubmitAction 7 1 ''watch_ad'')])
                             [(2000, SubmitAction 7 2 ''solve_puzzle'')]) ! 0) = 2800"
    using claim [THEN conjunct2, THEN conjunct2, THEN conjunct2, THEN conjunct2,
                 THEN conjunct1, THEN spec, THEN mp, OF a] c by simp
  have h: "tok_expiresAt (tokens (run (run init [(1000, StartSession 7), (1600, SubmitAction 7 1 ''watch_ad'')])
                                [(2000, SubmitAction 7 2 ''solve_puzzle'')]) ! 1) = 2800"
    using claim [THEN conjunct2, THEN conjunct2, THEN conjunct2, THEN conjunct2,
                 THEN conjunct2, THEN spec, THEN mp, OF d] e by simp
  from a b c d e f g h show ?thesis by blast
qed

section \<open>Properties of the rank index\<close>

subsection \<open>The order and the insertion sort\<close>

lemma ranks_before_irrefl: "\<not> ranks_before a a"
  by (simp add: ranks_before_def)

lemma ranks_before_trans: "ranks_before a b \<Longrightarrow> ranks_before b c \<Longrightarrow> ranks_before a c"
  unfolding ranks_before_def by linarith

lemma ranks_before_asym: "ranks_before a b \<Longrightarrow> \<not> ranks_before b a"
  unfolding ranks_before_def by linarith

lemma ranks_before_total:
  "us_userId a \<noteq> us_userId b \<Longrightarrow> ranks_before a b \<or> ranks_before b a"
  unfolding ranks_before_def by linarith

lemma set_rank_insert: "set (rank_insert e xs) = insert e (set xs)"
  by (induction xs) auto

lemma filter_rank_insert:
  "length (filter P (rank_insert e xs)) = length (filter P (e # xs))"
  by (induction xs) auto

lemma ids_rank_insert:
  "distinct (map us_userId (rank_insert e xs)) = distinct (map us_userId (e # xs))"
  by (induction xs) (auto simp: set_rank_insert)

lemma sorted_rank_insert:
  assumes "sorted_wrt ranks_before xs" "us_userId e \<notin> us_userId ` set xs"
  shows "sorted_wrt ranks_before (rank_insert e xs)"
  using assms
proof (induction xs)
  case Nil
  then show ?case by simp
next
  case (Cons x xs)
  note sorted = Cons.prems(1) [simplified]
  show ?case
  proof (cases "ranks_before e x")
    case True
    have "ranks_before e y" if "y \<in> set xs" for y
    proof -
      from sorted that have "ranks_before x y" by blast
      with True show ?thesis by (rule ranks_before_trans)
    qed
    with True sorted show ?thesis by simp
  next
    case False
    have "us_userId e \<noteq> us_userId x" using Cons.prems(2) by auto
    with False have xe: "ranks_before x e" using ranks_before_total by blast
    have "us_userId e \<notin> us_userId ` set xs" using Cons.prems(2) by auto
    with sorted have rest: "sorted_wrt ranks_before (rank_insert e xs)"
      by (intro Cons.IH) simp_all
    have "ranks_before x y" if "y \<in> set (rank_insert e xs)" for y
      using that xe sorted unfolding set_rank_insert by blast
    with False rest show ?thesis by simp
  qed
qed

lemma rank_index_Cons: "rank_index (e # led) = rank_insert e (rank_index led)"
  by (simp add: rank_index_def)

lemma rank_index_Nil: "rank_index [] = []"
  by (simp add: rank_index_def)

lemma set_rank_index: "set (rank_index led) = set led"
  by (induction led) (simp_all add: rank_index_Nil rank_index_Cons set_rank_insert)

lemma filter_rank_index: "length (filter P (rank_index led)) = length (filter P led)"
  by (induction led) (simp_all add: rank_index_Nil rank_index_Cons filter_rank_insert)

lemma ids_rank_index:
  "distinct (map us_userId (rank_index led)) = distinct (map us_userId led)"
  by (induction led)
     (simp_all add: rank_index_Nil rank_index_Cons ids_rank_insert set_rank_index)

lemma sorted_rank_index:
  "distinct (map us_userId led) \<Longrightarrow> sorted_wrt ranks_before (rank_index led)"
proof (induction led)
  case Nil
  show ?case by (simp add: rank_index_Nil)
next
  case (Cons e led)
  then have "sorted_wrt ranks_before (rank_index led)" by simp
  moreover have "us_userId e \<notin> us_userId ` set (rank_index led)"
    using Cons.prems by (simp add: set_rank_index)
  ultimately show ?case
    unfolding rank_index_Cons by (rule sorted_rank_insert)
qed


subsection \<open>Positions in a sorted list\<close>

lemma position_sorted:
  assumes "sorted_wrt ranks_before xs" "distinct (map us_userId xs)" "e \<in> set xs"
  shows "position (us_userId e) xs = Some (Suc (length (filter (\<lambda>x. ranks_before x e) xs)))"
  using assms
proof (induction xs)
  case Nil
  then show ?case by simp
next
  case (Cons x xs)
  note sorted = Cons.prems(1) [simplified]
  note ids = Cons.prems(2) [simplified]
  show ?case
  proof (cases "us_userId x = us_userId e")
    case True
    have "e = x"
    proof (rule ccontr)
      assume "e \<noteq> x"
      with Cons.prems(3) have "e \<in> set xs" by simp
      then have "us_userId e \<in> us_userId ` set xs" by simp
      with True ids show False by simp
    qed
    have "\<not> ranks_before y e" if "y \<in> set xs" for y
    proof -
      from sorted that \<open>e = x\<close> have "ranks_before e y" by blast
      then show ?thesis by (rule ranks_before_asym)
    qed
    then have "filter (\<lambda>y. ranks_before y e) xs = []"
      by (simp add: filter_empty_conv)
    with True \<open>e = x\<close> show ?thesis by (simp add: ranks_before_irrefl)
  next
    case False
    with Cons.prems(3) have e: "e \<in> set xs" by auto
    with sorted have "ranks_before x e" by blast
    moreover have "position (us_userId e) xs
                     = Some (Suc (length (filter (\<lambda>x. ranks_before x e) xs)))"
      using sorted ids e by (intro Cons.IH) simp_all
    ultimately show ?thesis using False by simp
  qed
qed

lemma position_nth:
  "distinct (map us_userId xs) \<Longrightarrow> k < length xs
     \<Longrightarrow> position (us_userId (xs ! k)) xs = Some (Suc k)"
proof (induction xs arbitrary: k)
  case Nil
  then show ?case by simp
next
  case (Cons x xs)
  show ?case
  proof (cases k)
    case 0
    then show ?thesis by simp
  next
    case (Suc j)
    with Cons.prems have j: "j < length xs" by simp
    then have "xs ! j \<in> set xs" by simp
    then have "us_userId (xs ! j) \<in> us_userId ` set xs" by simp
    with Cons.prems(1) have "us_userId x \<noteq> us_userId (xs ! j)" by auto
    moreover have "position (us_userId (xs ! j)) xs = Some (Suc j)"
      using Cons.prems(1) j by (intro Cons.IH) simp_all
    ultimately show ?thesis using Suc by simp
  qed
qed

lemma ranks_before_count:
  "length (filter (\<lambda>x. ranks_before x e) xs)
     = length (filter (\<lambda>x. score e < score x) xs)
       + length (filter (\<lambda>x. score x = score e \<and> us_userId x < us_userId e) xs)"
  by (induction xs) (auto simp: ranks_before_def)

subsection \<open>The ledger has one entry for a user\<close>

lemma write_score_ids:
  assumes "distinct (map us_userId led)"
  shows "distinct (map us_userId (write_score uid v now led))"
proof (cases "list_ex (\<lambda>e. us_userId e = uid) led")
  case True
  have "map us_userId (map (\<lambda>e. if us_userId e = uid then e\<lparr>score := v, updatedAt := now\<rparr> else e) led)
          = map us_userId led"
    by (induction led) simp_all
  moreover have "write_score uid v now led
          = map (\<lambda>e. if us_userId e = uid then e\<lparr>score := v, updatedAt := now\<rparr> else e) led"
    using True by (simp add: write_score_def)
  ultimately show ?thesis using assms by (simp only:)
next
  case False
  then have "uid \<notin> us_userId ` set led" by (auto simp: list_ex_iff)
  with False assms show ?thesis by (simp add: write_score_def)
qed

lemma validateAndRotate_ledger: "ledger (snd (validateAndRotate uid tid now st)) = ledger st"
  using validateAndRotate_effect [of uid tid now st] by auto

lemma startSession_ledger: "ledger (snd (startSession uid now st)) = ledger st"
  by (simp add: startSession_def Let_def)

lemma endSession_ledger: "ledger (snd (endSession uid now st)) = ledger st"
  by (simp add: endSession_def split: option.splits)

lemma applyAction_ledger:
  "ledger (snd (applyAction uid a tid now st)) = ledger st
   \<or> (\<exists>v. ledger (snd (applyAction uid a tid now st)) = write_score uid v now (ledger st))"
proof (cases "validateAndRotate uid tid now st")
  case (Pair r st')
  then have "ledger st' = ledger st"
    using validateAndRotate_ledger [of uid tid now st] by simp
  with Pair show ?thesis
    by (auto simp: applyAction_def Let_def split: option.splits sum.splits)
qed

lemma applyAction_ids:
  "distinct (map us_userId (ledger st))
     \<Longrightarrow> distinct (map us_userId (ledger (snd (applyAction uid a tid now st))))"
  using applyAction_ledger [of uid a tid now st] write_score_ids by auto

lemma submitAction_ids:
  assumes "distinct (map us_userId (ledger st))"
  shows "distinct (map us_userId (ledger (snd (submitAction uid tid a now st))))"
proof (cases "10 \<le> recent uid 60 now (submit_log st)")
  case True
  with assms show ?thesis by (simp add: submitAction_def)
next
  case False
  let ?st1 = "st\<lparr>submit_log := submit_log st @ [(uid, now)]\<rparr>"
  from False have "snd (submitAction uid tid a now st) = snd (applyAction uid a tid now ?st1)"
    by (cases "applyAction uid a tid now ?st1")
       (auto simp: submitAction_def split: sum.splits)
  moreover have "distinct (map us_userId (ledger (snd (applyAction uid a tid now ?st1))))"
    using assms by (intro applyAction_ids) simp
  ultimately show ?thesis by simp
qed

lemma step_ids:
  assumes "distinct (map us_userId (ledger st))"
  shows "distinct (map us_userId (ledger (step st c)))"
proof (cases c)
  case (Pair now op)
  show ?thesis
    unfolding Pair using assms
    by (cases op)
       (simp_all add: startSession_ledger validateAndRotate_ledger endSession_ledger
          applyAction_ids submitAction_ids gate_startSession_def)
qed

lemma run_ids:
  "distinct (map us_userId (ledger st)) \<Longrightarrow> distinct (map us_userId (ledger (run st calls)))"
  unfolding run_def
proof (induction calls arbitrary: st)
  case Nil
  then show ?case by simp
next
  case (Cons c calls)
  from Cons.prems have "distinct (map us_userId (ledger (step st c)))" by (rule step_ids)
  then show ?case using Cons.IH by simp
qed

lemma reachable_ids: "distinct (map us_userId (ledger (run init calls)))"
  by (rule run_ids) (simp add: init_def)


subsection \<open>The claim about ranks\<close>

lemma rankOf_formula:
  assumes "distinct (map us_userId (ledger st))" "e \<in> set (ledger st)"
  shows "rankOf (us_userId e) st
           = Some (1 + length (filter (\<lambda>x. score e < score x) (ledger st))
                     + length (filter (\<lambda>x. score x = score e \<and> us_userId x < us_userId e)
                                (ledger st)))"
proof -
  have "sorted_wrt ranks_before (rank_index (ledger st))"
    using assms(1) by (rule sorted_rank_index)
  moreover have "distinct (map us_userId (rank_index (ledger st)))"
    using assms(1) by (simp add: ids_rank_index)
  moreover have "e \<in> set (rank_index (ledger st))"
    using assms(2) by (simp add: set_rank_index)
  ultimately have "position (us_userId e) (rank_index (ledger st))
      = Some (Suc (length (filter (\<lambda>x. ranks_before x e) (rank_index (ledger st)))))"
    by (rule position_sorted)
  also have "length (filter (\<lambda>x. ranks_before x e) (rank_index (ledger st)))
      = length (filter (\<lambda>x. ranks_before x e) (ledger st))"
    by (rule filter_rank_index)
  finally show ?thesis
    by (simp add: rankOf_def ranks_before_count)
qed

lemma rankOf_topN:
  assumes "distinct (map us_userId (ledger st))" "k < length (topN n st)"
  shows "rankOf (us_userId (topN n st ! k)) st = Some (k + 1)"
proof -
  from assms(2) have k: "k < length (rank_index (ledger st))" "k < n"
    by (simp_all add: topN_def)
  then have "topN n st ! k = rank_index (ledger st) ! k"
    by (simp add: topN_def)
  moreover have "distinct (map us_userId (rank_index (ledger st)))"
    using assms(1) by (simp add: ids_rank_index)
  then have "position (us_userId (rank_index (ledger st) ! k)) (rank_index (ledger st))
               = Some (Suc k)"
    using k(1) by (rule position_nth)
  ultimately show ?thesis by (simp add: rankOf_def)
qed

lemma getTopN_nth:
  assumes "k < length (topN n st)"
  shows "getTopN n st ! k = (k + 1, us_userId (topN n st ! k), score (topN n st ! k))"
  using assms by (simp add: getTopN_def nth_enumerate_eq)

text \<open>
  C7. After every sequence of operations and for every entry \<open>e\<close> of the score
  ledger, the rank of its user is one more than the number of entries with a
  strictly higher score plus the number of entries with the same score and a
  smaller userId. The rank index is the ledger sorted by score descending and
  userId ascending, \<open>topN n\<close> is its prefix of length \<open>n\<close>, and the entry at
  place \<open>k\<close> of \<open>getTopN n\<close> carries the rank \<open>k + 1\<close>, which is the rank of its
  user.
\<close>

theorem rank_correct:
  "(\<forall>e \<in> set (ledger (run init calls)).
      rankOf (us_userId e) (run init calls)
        = Some (1 + length (filter (\<lambda>x. score e < score x) (ledger (run init calls)))
                  + length (filter (\<lambda>x. score x = score e \<and> us_userId x < us_userId e)
                             (ledger (run init calls)))))
   \<and> sorted_wrt ranks_before (rank_index (ledger (run init calls)))
   \<and> set (rank_index (ledger (run init calls))) = set (ledger (run init calls))
   \<and> topN n (run init calls) = take n (rank_index (ledger (run init calls)))
   \<and> length (getTopN n (run init calls)) = length (topN n (run init calls))
   \<and> (\<forall>k < length (topN n (run init calls)).
         rankOf (us_userId (topN n (run init calls) ! k)) (run init calls) = Some (k + 1)
         \<and> getTopN n (run init calls) ! k
             = (k + 1, us_userId (topN n (run init calls) ! k),
                score (topN n (run init calls) ! k)))"
proof -
  let ?st = "run init calls"
  have ids: "distinct (map us_userId (ledger ?st))" by (rule reachable_ids)
  have a: "\<forall>e \<in> set (ledger ?st).
      rankOf (us_userId e) ?st
        = Some (1 + length (filter (\<lambda>x. score e < score x) (ledger ?st))
                  + length (filter (\<lambda>x. score x = score e \<and> us_userId x < us_userId e)
                             (ledger ?st)))"
    using rankOf_formula [OF ids] by blast
  have b: "sorted_wrt ranks_before (rank_index (ledger ?st))"
    using ids by (rule sorted_rank_index)
  have c: "set (rank_index (ledger ?st)) = set (ledger ?st)"
    by (rule set_rank_index)
  have d: "topN n ?st = take n (rank_index (ledger ?st))"
    by (simp add: topN_def)
  have e: "length (getTopN n ?st) = length (topN n ?st)"
    by (simp add: getTopN_def)
  have f: "\<forall>k < length (topN n ?st).
         rankOf (us_userId (topN n ?st ! k)) ?st = Some (k + 1)
         \<and> getTopN n ?st ! k
             = (k + 1, us_userId (topN n ?st ! k), score (topN n ?st ! k))"
    using rankOf_topN [OF ids] getTopN_nth by blast
  from a b c d e f show ?thesis by blast
qed

text \<open>
  The ranks after three users have started and scored 10, 15 and 10: user 3
  ties with user 1 and ranks third, and user 2 heads the top two.
\<close>

theorem rank_correct_witness:
  "\<lparr>us_userId = 3, score = 10, updatedAt = 1\<rparr>
     \<in> set (ledger (run init [(0, StartSession 1), (0, StartSession 2), (0, StartSession 3), (1, SubmitAction 1 1 ''watch_ad''), (1, SubmitAction 3 5 ''watch_ad''), (2, SubmitAction 2 3 ''solve_puzzle'')]))
   \<and> rankOf 3 (run init [(0, StartSession 1), (0, StartSession 2), (0, StartSession 3), (1, SubmitAction 1 1 ''watch_ad''), (1, SubmitAction 3 5 ''watch_ad''), (2, SubmitAction 2 3 ''solve_puzzle'')]) = Some 3
   \<and> 1 + length (filter (\<lambda>x. (10::nat) < score x)
                (ledger (run init [(0, StartSession 1), (0, StartSession 2), (0, StartSession 3), (1, SubmitAction 1 1 ''watch_ad''), (1, SubmitAction 3 5 ''watch_ad''), (2, SubmitAction 2 3 ''solve_puzzle'')])))
       + length (filter (\<lambda>x. score x = 10 \<and> us_userId x < 3)
                (ledger (run init [(0, StartSession 1), (0, StartSession 2), (0, StartSession 3), (1, SubmitAction 1 1 ''watch_ad''), (1, SubmitAction 3 5 ''watch_ad''), (2, SubmitAction 2 3 ''solve_puzzle'')]))) = 3
   \<and> 0 < length (topN 2 (run init [(0, StartSession 1), (0, StartSession 2), (0, StartSession 3), (1, SubmitAction 1 1 ''watch_ad''), (1, SubmitAction 3 5 ''watch_ad''), (2, SubmitAction 2 3 ''solve_puzzle'')]))
   \<and> getTopN 2 (run init [(0, StartSession 1), (0, StartSession 2), (0, StartSession 3), (1, SubmitAction 1 1 ''watch_ad''), (1, SubmitAction 3 5 ''watch_ad''), (2, SubmitAction 2 3 ''solve_puzzle'')]) ! 0 = (1, 2, 15)"
proof -
  note claim = rank_correct [of "[(0, StartSession 1), (0, StartSession 2), (0, StartSession 3), (1, SubmitAction 1 1 ''watch_ad''), (1, SubmitAction 3 5 ''watch_ad''), (2, SubmitAction 2 3 ''solve_puzzle'')]" 2]
  have a: "\<lparr>us_userId = 3, score = 10, updatedAt = 1\<rparr>
     \<in> set (ledger (run init [(0, StartSession 1), (0, StartSession 2), (0, StartSession 3), (1, SubmitAction 1 1 ''watch_ad''), (1, SubmitAction 3 5 ''watch_ad''), (2, SubmitAction 2 3 ''solve_puzzle'')]))"
    by code_simp
  have b: "1 + length (filter (\<lambda>x. (10::nat) < score x)
                (ledger (run init [(0, StartSession 1), (0, StartSession 2), (0, StartSession 3), (1, SubmitAction 1 1 ''watch_ad''), (1, SubmitAction 3 5 ''watch_ad''), (2, SubmitAction 2 3 ''solve_puzzle'')])))
       + length (filter (\<lambda>x. score x = 10 \<and> us_userId x < 3)
                (ledger (run init [(0, StartSession 1), (0, StartSession 2), (0, StartSession 3), (1, SubmitAction 1 1 ''watch_ad''), (1, SubmitAction 3 5 ''watch_ad''), (2, SubmitAction 2 3 ''solve_puzzle'')]))) = 3"
    by code_simp
  have c: "0 < length (topN 2 (run init [(0, StartSession 1), (0, StartSession 2), (0, StartSession 3), (1, SubmitAction 1 1 ''watch_ad''), (1, SubmitAction 3 5 ''watch_ad''), (2, SubmitAction 2 3 ''solve_puzzle'')]))"
    by code_simp
  have d: "us_userId (topN 2 (run init [(0, StartSession 1), (0, StartSession 2), (0, StartSession 3), (1, SubmitAction 1 1 ''watch_ad''), (1, SubmitAction 3 5 ''watch_ad''), (2, SubmitAction 2 3 ''solve_puzzle'')]) ! 0) = 2
           \<and> score (topN 2 (run init [(0, StartSession 1), (0, StartSession 2), (0, StartSession 3), (1, SubmitAction 1 1 ''watch_ad''), (1, SubmitAction 3 5 ''watch_ad''), (2, SubmitAction 2 3 ''solve_puzzle'')]) ! 0) = 15"
    by code_simp
  have e: "rankOf 3 (run init [(0, StartSession 1), (0, StartSession 2), (0, StartSession 3), (1, SubmitAction 1 1 ''watch_ad''), (1, SubmitAction 3 5 ''watch_ad''), (2, SubmitAction 2 3 ''solve_puzzle'')]) = Some 3"
    using claim [THEN conjunct1, THEN bspec, OF a] b by simp
  have f: "getTopN 2 (run init [(0, StartSession 1), (0, StartSession 2), (0, StartSession 3), (1, SubmitAction 1 1 ''watch_ad''), (1, SubmitAction 3 5 ''watch_ad''), (2, SubmitAction 2 3 ''solve_puzzle'')]) ! 0 = (1, 2, 15)"
    using claim [THEN conjunct2, THEN conjunct2, THEN conjunct2, THEN conjunct2,
                 THEN conjunct2, THEN spec, THEN mp, OF c] d by simp
  from a b c e f show ?thesis by blast
qed

end
